theory Spec2Isabelle
  imports Complex_Main "HOL-Library.Word"
begin

section \<open>utils.hpp: rounding a size up to a power of two\<close>

text \<open>
  \<^verbatim>\<open>size_t\<close> is taken as an unsigned 64-bit integer. The source is
  \<^verbatim>\<open>
  inline size_t next_pow_2(size_t num) {
    size_t next = 2;
    size_t i = 0;
    while (next < num) {
      next = static_cast<size_t>(1) << i++;
    }
    return next;
  }
  \<close>
  A left shift of a 64-bit value by 64 or more positions has no defined result in C++;
  the model reports it as a fault instead of inventing a value. The counter \<open>i\<close> never
  exceeds 64 before that happens, so it is kept as a natural number.
\<close>

type_synonym size_t = "64 word"

datatype fault = Shift_Out_Of_Range

function next_pow_2_loop :: "size_t \<Rightarrow> size_t \<Rightarrow> nat \<Rightarrow> fault + size_t" where
  "next_pow_2_loop num next i =
     (if next < num then
        (if i < 64 then next_pow_2_loop num (push_bit i 1) (Suc i)
         else Inl Shift_Out_Of_Range)
      else Inr next)"
  by pat_completeness auto
termination
  by (relation "measure (\<lambda>(num, next, i). 64 - i)") auto

declare next_pow_2_loop.simps [simp del]

definition next_pow_2 :: "size_t \<Rightarrow> fault + size_t" where
  "next_pow_2 num = next_pow_2_loop num 2 0"

section \<open>workers.cpp: build-time parameters\<close>

text \<open>
  \<^verbatim>\<open>
  #define NUM_THREADS 4
  #define NUM_ITERATIONS 10000000
  #define HIGHEST_TRACKABLE_VALUE 3600LL * 1000LL * 1000LL
  cass::MPMCQueue<uint64_t> queue(8 * 1024 * 1024);
  \<close>
\<close>

definition NUM_THREADS :: nat where
  "NUM_THREADS = 4"

definition NUM_ITERATIONS :: nat where
  "NUM_ITERATIONS = 10000000"

definition HIGHEST_TRACKABLE_VALUE :: int where
  "HIGHEST_TRACKABLE_VALUE = 3600 * 1000 * 1000"

definition queue_size :: nat where
  "queue_size = 8 * 1024 * 1024"

section \<open>The collaborators of the benchmark\<close>

subsection \<open>Tokens and the shared queue\<close>

text \<open>
  A token is a \<^verbatim>\<open>uint64_t\<close>; the value \<^verbatim>\<open>(uint64_t)-1\<close> tells a consumer to stop.
\<close>

type_synonym token = "64 word"

definition sentinel :: token where
  "sentinel = - 1"

text \<open>
  Modelled from the spec: \<^verbatim>\<open>mpmc_queue.hpp\<close> (the class \<^verbatim>\<open>cass::MPMCQueue\<close>) is not among the
  sources. The spec gives the contract: a bounded container of 64-bit tokens of fixed
  capacity; \<open>enqueue\<close> never blocks and answers success or full; \<open>dequeue\<close> never blocks
  and returns at most one token, or reports empty. The container is taken as a first-in
  first-out list whose operations are atomic.
\<close>

definition enqueue :: "nat \<Rightarrow> token \<Rightarrow> token list \<Rightarrow> token list option" where
  "enqueue cap v q = (if length q < cap then Some (q @ [v]) else None)"

definition dequeue :: "token list \<Rightarrow> (token \<times> token list) option" where
  "dequeue q = (case q of [] \<Rightarrow> None | v # q' \<Rightarrow> Some (v, q'))"

subsection \<open>The latency recorder\<close>

text \<open>
  Modelled from the spec: \<^verbatim>\<open>hdr_histogram.hpp\<close> is not among the sources. The spec gives the
  contract: \<open>record(value)\<close> inserts one sample, clipped to the configured range and never
  dropped; the queries are read-only. The recorder is taken as the list of the samples
  inserted so far, together with the three parameters \<^verbatim>\<open>hdr_init\<close> received. What the
  queries compute is left open: a query occurs in the output as the query and the
  recorder it was asked of.
\<close>

record hdr_histogram =
  lowest_trackable_value :: int
  highest_trackable_value :: int
  significant_figures :: int
  samples :: "int list"

definition hdr_init :: "int \<Rightarrow> int \<Rightarrow> int \<Rightarrow> hdr_histogram" where
  "hdr_init lowest highest figures =
     \<lparr>lowest_trackable_value = lowest, highest_trackable_value = highest,
      significant_figures = figures, samples = []\<rparr>"

definition hdr_record_value :: "hdr_histogram \<Rightarrow> int \<Rightarrow> hdr_histogram" where
  "hdr_record_value h v =
     h\<lparr>samples := samples h @
          [max (lowest_trackable_value h) (min (highest_trackable_value h) v)]\<rparr>"

datatype query =
    Hdr_Max | Hdr_Min | Hdr_Mean | Hdr_Stddev | Hdr_Value_At_Percentile real

subsection \<open>Standard output\<close>

text \<open>
  A call of \<^verbatim>\<open>printf\<close> is kept as its format string and its arguments. Floating-point
  arguments are not computed: \<open>Seconds d\<close> stands for
  \<^verbatim>\<open>(double)d / (1000 * 1000 * 1000)\<close> and \<open>Per_Second m d\<close> for \<^verbatim>\<open>(double)m\<close> divided by it.
\<close>

datatype printf_arg =
    Str string
  | Hdr query hdr_histogram
  | Seconds token
  | Per_Second nat token

type_synonym line = "string \<times> printf_arg list"

definition dump_format :: string where
  "dump_format =
     ''final stats (nanoseconds): min %lld max %lld median %lld 75th %lld 95th %lld '' @
     ''98th %lld 99th %lld 99.9th %lld mean: %f stddev: %f'' @ [CHR 0x0A]"

definition throughput_format :: string where
  "throughput_format =
     ''Test '' @ [CHR 0x22] @ ''%s'' @ [CHR 0x22] @
     '': Elapsed: %f seconds, Rate: %f queues/second'' @ [CHR 0x0A]"

text \<open>
  \<^verbatim>\<open>BaseWorker::dump\<close>: ten queries of the worker's own recorder, printed as one line, in the
  order min, max, median, 75th, 95th, 98th, 99th, 99.9th, mean, stddev.
\<close>

definition dump :: "hdr_histogram \<Rightarrow> line" where
  "dump h =
     (dump_format,
      [Hdr Hdr_Min h, Hdr Hdr_Max h,
       Hdr (Hdr_Value_At_Percentile 50.0) h, Hdr (Hdr_Value_At_Percentile 75.0) h,
       Hdr (Hdr_Value_At_Percentile 95.0) h, Hdr (Hdr_Value_At_Percentile 98.0) h,
       Hdr (Hdr_Value_At_Percentile 99.0) h, Hdr (Hdr_Value_At_Percentile 99.9) h,
       Hdr Hdr_Mean h, Hdr Hdr_Stddev h])"

definition throughput_line :: "string \<Rightarrow> token \<Rightarrow> nat \<Rightarrow> line" where
  "throughput_line name d m = (throughput_format, [Str name, Seconds d, Per_Second m d])"

subsection \<open>What a step reads from outside the program\<close>

text \<open>
  A step that reads the clock, or that calls a libuv function which may fail, takes the
  value from the environment: what \<^verbatim>\<open>uv_hrtime\<close> returns, and the return codes of
  \<^verbatim>\<open>uv_sem_init\<close>, \<^verbatim>\<open>uv_loop_init\<close>, \<^verbatim>\<open>uv_async_init\<close> and \<^verbatim>\<open>uv_thread_create\<close>
  (zero for success).
\<close>

record environment =
  uv_hrtime :: token
  uv_sem_init :: int
  uv_loop_init :: int
  uv_async_init :: int
  uv_thread_create :: int

section \<open>Workers\<close>

datatype strategy = Sem | Busy | Loop

text \<open>
  The places at which a worker thread can stand between two accesses to shared state.
  \<^item> \<open>Created\<close>: the thread has not been started.
  \<^item> \<open>Sem_Wait\<close>: at \<^verbatim>\<open>uv_sem_wait(&sem)\<close>.
  \<^item> \<open>Sem_Clear\<close>: the wait returned; at \<^verbatim>\<open>pending.compare_exchange_strong(was_pending, false)\<close>.
  \<^item> \<open>Loop_Wait\<close>: inside \<^verbatim>\<open>uv_run\<close>, waiting for the wake event of the async handle.
  \<^item> \<open>Drain\<close>: at \<^verbatim>\<open>queue.dequeue(value)\<close>, the test of the inner loop.
  \<^item> \<open>Dump\<close>: the sentinel was seen (\<^verbatim>\<open>done = true; break\<close>); at \<^verbatim>\<open>dump()\<close>.
  \<^item> \<open>Terminated\<close>: the thread function has returned.
\<close>

datatype wpc = Created | Sem_Wait | Sem_Clear | Loop_Wait | Drain | Dump | Terminated

record worker =
  pc :: wpc
  histogram :: hdr_histogram
  pending :: bool
  sem :: nat
  async_pending :: bool

text \<open>
  The constructors: \<^verbatim>\<open>BaseWorker()\<close> calls
  \<^verbatim>\<open>hdr_init(1LL, HIGHEST_TRACKABLE_VALUE, 3, &histogram)\<close>, and \<^verbatim>\<open>SemWorker()\<close> sets
  \<^verbatim>\<open>pending(false)\<close>. The semaphore is given the value 0 by \<^verbatim>\<open>uv_sem_init(&sem, 0)\<close>.
\<close>

definition BaseWorker :: worker where
  "BaseWorker =
     \<lparr>pc = Created, histogram = hdr_init 1 HIGHEST_TRACKABLE_VALUE 3,
      pending = False, sem = 0, async_pending = False\<rparr>"

text \<open>
  \<^verbatim>\<open>init()\<close> of the three classes. Each returns the first nonzero return code, and
  \<^verbatim>\<open>uv_thread_create\<close> is called last, so the thread runs exactly when \<open>init\<close> returns 0.
\<close>

definition ThreadWorker_init :: "environment \<Rightarrow> int" where
  "ThreadWorker_init env = uv_thread_create env"

definition SemWorker_init :: "environment \<Rightarrow> int" where
  "SemWorker_init env =
     (let rc = uv_sem_init env in
      if rc \<noteq> 0 then rc else ThreadWorker_init env)"

definition LoopWorker_init :: "environment \<Rightarrow> int" where
  "LoopWorker_init env =
     (let rc = uv_loop_init env in
      if rc \<noteq> 0 then rc
      else let rc = uv_async_init env in
        if rc \<noteq> 0 then rc
        else let rc = ThreadWorker_init env in
          if rc \<noteq> 0 then rc else rc)"

fun init :: "strategy \<Rightarrow> environment \<Rightarrow> int" where
  "init Sem env = SemWorker_init env"
| "init Busy env = ThreadWorker_init env"
| "init Loop env = LoopWorker_init env"

text \<open>Where \<^verbatim>\<open>run()\<close> first stands, and where it stands after the queue was found empty.\<close>

fun waiting :: "strategy \<Rightarrow> wpc" where
  "waiting Sem = Sem_Wait"
| "waiting Busy = Drain"
| "waiting Loop = Loop_Wait"

section \<open>One run of a strategy as a system of threads\<close>

text \<open>
  \<^verbatim>\<open>run_test\<close> is the driver thread; each worker whose \<open>init\<close> succeeded is one more thread.
  The run is modelled as an interleaving of steps: a schedule names, step by step, the
  thread that moves next and what that step reads from the environment. Each step performs
  one access to shared state (the queue, a pending flag, a semaphore, an async handle,
  standard output) together with the thread-local computation up to the next access.
  Accesses are sequentially consistent; \<^verbatim>\<open>queue.memory_fence()\<close> is therefore no step of
  its own.

  The parameters of a run are kept in a record, so that the fixed values of the build are
  one instance. The loop counters \<^verbatim>\<open>int i\<close> never exceed their bounds, which are \<^verbatim>\<open>int\<close>
  constants, and are natural numbers here; \<^verbatim>\<open>index\<close> is a \<^verbatim>\<open>size_t\<close> and wraps around.
  Assertions are taken as enabled: a failed \<^verbatim>\<open>assert\<close> ends the process.
\<close>

record config =
  strategy :: strategy
  name :: string
  num_threads :: nat
  num_iterations :: nat
  capacity :: nat

definition run_sem_test :: config where
  "run_sem_test =
     \<lparr>strategy = Sem, name = ''sema'', num_threads = NUM_THREADS,
      num_iterations = NUM_ITERATIONS, capacity = queue_size\<rparr>"

definition run_busy_test :: config where
  "run_busy_test =
     \<lparr>strategy = Busy, name = ''busy'', num_threads = NUM_THREADS,
      num_iterations = NUM_ITERATIONS, capacity = queue_size\<rparr>"

definition run_loop_test :: config where
  "run_loop_test =
     \<lparr>strategy = Loop, name = ''loop'', num_threads = NUM_THREADS,
      num_iterations = NUM_ITERATIONS, capacity = queue_size\<rparr>"

text \<open>
  The places of the driver in \<^verbatim>\<open>run_test\<close>. \<open>Production\<close> is the measured loop over
  \<^verbatim>\<open>NUM_ITERATIONS\<close>, \<open>Shutdown\<close> the loop that enqueues the sentinels; both have the same body.
  \<^item> \<open>D_Init i\<close>: at \<^verbatim>\<open>workers[i]->init()\<close>.
  \<^item> \<open>D_Start\<close>: at \<^verbatim>\<open>size_t index = 0; uint64_t start = uv_hrtime()\<close>.
  \<^item> \<open>D_Enqueue ph i\<close>: iteration \<open>i\<close>, at \<^verbatim>\<open>queue.enqueue(...)\<close>.
  \<^item> \<open>D_Send ph i\<close>: at \<^verbatim>\<open>workers[index++ % NUM_THREADS]->send()\<close>.
  \<^item> \<open>D_Set ph i t\<close>: inside \<^verbatim>\<open>SemWorker::send\<close> of worker \<open>t\<close>, the flag was read as false;
    at \<^verbatim>\<open>pending.compare_exchange_strong(was_pending, true)\<close>.
  \<^item> \<open>D_Post ph i t\<close>: the exchange succeeded; at \<^verbatim>\<open>uv_sem_post(&sem)\<close>.
  \<^item> \<open>D_Report\<close>: at the computation of \<^verbatim>\<open>elapsed\<close> and the \<^verbatim>\<open>printf\<close> of the throughput.
  \<^item> \<open>D_Join i\<close>: at \<^verbatim>\<open>workers[i]->join()\<close>.
  \<^item> \<open>D_Done\<close>: \<^verbatim>\<open>run_test\<close> has returned.
  \<^item> \<open>D_Abort ph i\<close>: \<^verbatim>\<open>assert(false && "Unable to queue")\<close> has ended the process in
    iteration \<open>i\<close>.
\<close>

datatype phase = Production | Shutdown

datatype dpc =
    D_Init nat
  | D_Start
  | D_Enqueue phase nat
  | D_Send phase nat
  | D_Set phase nat nat
  | D_Post phase nat nat
  | D_Report
  | D_Join nat
  | D_Done
  | D_Abort phase nat

text \<open>
  The history of a run: the calls made so far, in the order in which they took effect.
  It is not a variable of the program; the claims speak about it.
  \<^item> \<open>Ev_Init i rc\<close>: \<^verbatim>\<open>workers[i]->init()\<close> returned \<open>rc\<close>.
  \<^item> \<open>Ev_Enqueue v\<close>: \<^verbatim>\<open>queue.enqueue(v)\<close> succeeded; \<open>Ev_Full v\<close>: it reported a full queue.
  \<^item> \<open>Ev_Send t\<close>: the driver called \<^verbatim>\<open>workers[t]->send()\<close>.
  \<^item> \<open>Ev_Set t b\<close>: in \<^verbatim>\<open>SemWorker::send\<close>, the exchange of the flag from false to true
    returned \<open>b\<close>.
  \<^item> \<open>Ev_Post t\<close>: \<^verbatim>\<open>uv_sem_post\<close> on the semaphore of worker \<open>t\<close>.
  \<^item> \<open>Ev_Join i\<close>: \<^verbatim>\<open>workers[i]->join()\<close> returned.
  \<^item> \<open>Ev_Wake k\<close>: worker \<open>k\<close> returned from \<^verbatim>\<open>uv_sem_wait\<close>, or its loop started the
    callback \<^verbatim>\<open>on_async\<close>.
  \<^item> \<open>Ev_Clear k b\<close>: in \<^verbatim>\<open>SemWorker::run\<close>, the exchange of the flag from true to false
    returned \<open>b\<close>.
  \<^item> \<open>Ev_Dequeue k v\<close>: \<^verbatim>\<open>queue.dequeue(value)\<close> of worker \<open>k\<close> returned the token \<open>v\<close>.
  \<^item> \<open>Ev_Dump k\<close>: worker \<open>k\<close> printed its report.
\<close>

datatype event =
    Ev_Init nat int
  | Ev_Enqueue token
  | Ev_Full token
  | Ev_Send nat
  | Ev_Set nat bool
  | Ev_Post nat
  | Ev_Join nat
  | Ev_Wake nat
  | Ev_Clear nat bool
  | Ev_Dequeue nat token
  | Ev_Dump nat

record state =
  queue :: "token list"
  workers :: "worker list"
  dpc :: dpc
  index :: size_t
  start :: token
  elapsed :: token
  stdout :: "line list"
  trace :: "event list"

subsection \<open>The driver\<close>

text \<open>The loop heads of \<^verbatim>\<open>run_test\<close>: where the driver stands when iteration \<open>i\<close> is due.\<close>

definition init_loop :: "config \<Rightarrow> nat \<Rightarrow> dpc" where
  "init_loop cfg i = (if i < num_threads cfg then D_Init i else D_Start)"

definition production_loop :: "config \<Rightarrow> nat \<Rightarrow> dpc" where
  "production_loop cfg i = (if i < num_iterations cfg then D_Enqueue Production i else D_Report)"

definition join_loop :: "config \<Rightarrow> nat \<Rightarrow> dpc" where
  "join_loop cfg i = (if i < num_threads cfg then D_Join i else D_Done)"

definition shutdown_loop :: "config \<Rightarrow> nat \<Rightarrow> dpc" where
  "shutdown_loop cfg i = (if i < num_threads cfg then D_Enqueue Shutdown i else join_loop cfg 0)"

fun after_send :: "config \<Rightarrow> phase \<Rightarrow> nat \<Rightarrow> dpc" where
  "after_send cfg Production i = production_loop cfg (Suc i)"
| "after_send cfg Shutdown i = shutdown_loop cfg (Suc i)"

text \<open>
  Before the first step: the array holds \<^verbatim>\<open>NUM_THREADS\<close> freshly constructed workers, the
  queue is empty, and the driver stands at the head of the loop over \<open>init\<close>.
\<close>

definition initial :: "config \<Rightarrow> state" where
  "initial cfg =
     \<lparr>queue = [], workers = replicate (num_threads cfg) BaseWorker,
      dpc = init_loop cfg 0,
      index = 0, start = 0, elapsed = 0, stdout = [], trace = []\<rparr>"

text \<open>
  One step of the driver. The result is \<open>None\<close> where the driver cannot move: it waits in
  \<open>join\<close> for a thread that has not returned, it has finished, or it would index the array
  of workers out of range (which the program never does: the array has \<^verbatim>\<open>NUM_THREADS\<close>
  entries; with no workers at all, \<^verbatim>\<open>index++ % NUM_THREADS\<close> is a division by zero).

  The return value of \<open>init\<close> is not looked at by \<^verbatim>\<open>run_test\<close>. \<open>join\<close> is
  \<^verbatim>\<open>uv_thread_join\<close>, which returns once the thread function has returned; on a worker
  whose thread was never created the driver does not get past it. What \<open>join\<close> does
  after that (\<^verbatim>\<open>uv_sem_destroy\<close>, \<^verbatim>\<open>uv_loop_close\<close>) touches nothing the run still uses.
\<close>

definition driver_step :: "config \<Rightarrow> environment \<Rightarrow> state \<Rightarrow> state option" where
  "driver_step cfg env s =
     (case dpc s of
        D_Init i \<Rightarrow>
          if i < length (workers s) then
            let rc = init (strategy cfg) env;
                w = workers s ! i
            in Some (s\<lparr>workers := (workers s)
                         [i := w\<lparr>pc := (if rc = 0 then waiting (strategy cfg) else Created)\<rparr>],
                       dpc := init_loop cfg (Suc i),
                       trace := trace s @ [Ev_Init i rc]\<rparr>)
          else None
      | D_Start \<Rightarrow>
          Some (s\<lparr>index := 0, start := uv_hrtime env, dpc := production_loop cfg 0\<rparr>)
      | D_Enqueue ph i \<Rightarrow>
          let v = (case ph of Production \<Rightarrow> uv_hrtime env | Shutdown \<Rightarrow> sentinel) in
          (case enqueue (capacity cfg) v (queue s) of
             Some q \<Rightarrow> Some (s\<lparr>queue := q, dpc := D_Send ph i, trace := trace s @ [Ev_Enqueue v]\<rparr>)
           | None \<Rightarrow> Some (s\<lparr>dpc := D_Abort ph i, trace := trace s @ [Ev_Full v]\<rparr>))
      | D_Send ph i \<Rightarrow>
          let t = unat (index s) mod num_threads cfg in
          if t < length (workers s) then
            let w = workers s ! t;
                s' = s\<lparr>index := index s + 1, trace := trace s @ [Ev_Send t]\<rparr>
            in (case strategy cfg of
                  Busy \<Rightarrow> Some (s'\<lparr>dpc := after_send cfg ph i\<rparr>)
                | Loop \<Rightarrow> Some (s'\<lparr>workers := (workers s)[t := w\<lparr>async_pending := True\<rparr>],
                                    dpc := after_send cfg ph i\<rparr>)
                | Sem \<Rightarrow> Some (s'\<lparr>dpc := (if pending w then after_send cfg ph i
                                              else D_Set ph i t)\<rparr>))
          else None
      | D_Set ph i t \<Rightarrow>
          if t < length (workers s) then
            let w = workers s ! t in
            if pending w then
              Some (s\<lparr>dpc := after_send cfg ph i, trace := trace s @ [Ev_Set t False]\<rparr>)
            else
              Some (s\<lparr>workers := (workers s)[t := w\<lparr>pending := True\<rparr>],
                      dpc := D_Post ph i t,
                      trace := trace s @ [Ev_Set t True]\<rparr>)
          else None
      | D_Post ph i t \<Rightarrow>
          if t < length (workers s) then
            let w = workers s ! t in
            Some (s\<lparr>workers := (workers s)[t := w\<lparr>sem := Suc (sem w)\<rparr>],
                    dpc := after_send cfg ph i,
                    trace := trace s @ [Ev_Post t]\<rparr>)
          else None
      | D_Report \<Rightarrow>
          let d = uv_hrtime env - start s in
          Some (s\<lparr>elapsed := d,
                  stdout := stdout s @ [throughput_line (name cfg) d (num_iterations cfg)],
                  dpc := shutdown_loop cfg 0\<rparr>)
      | D_Join i \<Rightarrow>
          if i < length (workers s) \<and> pc (workers s ! i) = Terminated then
            Some (s\<lparr>dpc := join_loop cfg (Suc i), trace := trace s @ [Ev_Join i]\<rparr>)
          else None
      | D_Done \<Rightarrow> None
      | D_Abort ph i \<Rightarrow> None)"

subsection \<open>The worker threads\<close>

text \<open>
  \<^verbatim>\<open>record((int64_t)uv_hrtime() - value)\<close>: the difference is computed in 64 bits without
  sign and handed to \<open>record\<close> as an \<^verbatim>\<open>int64_t\<close>.
\<close>

definition latency :: "token \<Rightarrow> token \<Rightarrow> int" where
  "latency now v = sint (now - v)"

text \<open>
  One step of worker \<open>k\<close>: \<^verbatim>\<open>SemWorker::run\<close>, \<^verbatim>\<open>BusyWorker::run\<close>, and
  \<^verbatim>\<open>LoopWorker::run\<close> with \<^verbatim>\<open>LoopWorker::on_async\<close>. The three share the inner loop
  \<^verbatim>\<open>
  while (queue.dequeue(value)) {
    if (value == (uint64_t)-1) { done = true; break; }
    else { record((int64_t)uv_hrtime() - value); }
  }
  \<close>
  and differ in what happens when the queue is found empty: \<open>SemWorker\<close> returns to
  \<^verbatim>\<open>uv_sem_wait\<close>, \<open>BusyWorker\<close> tries again at once, \<open>LoopWorker\<close> returns from the callback
  into \<^verbatim>\<open>uv_run\<close>. After \<open>dump\<close> the thread function returns; for \<open>LoopWorker\<close> this is
  \<^verbatim>\<open>uv_close\<close> of the only handle of the loop, after which \<^verbatim>\<open>uv_run\<close> returns. The result is
  \<open>None\<close> where the thread cannot move: it was never started, it has returned, it waits on
  a semaphore whose value is 0 or for a wake event that has not been sent.
\<close>

definition worker_step :: "config \<Rightarrow> nat \<Rightarrow> environment \<Rightarrow> state \<Rightarrow> state option" where
  "worker_step cfg k env s =
     (let w = workers s ! k in
      case pc w of
        Created \<Rightarrow> None
      | Sem_Wait \<Rightarrow>
          if 0 < sem w then
            Some (s\<lparr>workers := (workers s)[k := w\<lparr>sem := sem w - 1, pc := Sem_Clear\<rparr>],
                    trace := trace s @ [Ev_Wake k]\<rparr>)
          else None
      | Sem_Clear \<Rightarrow>
          if pending w then
            Some (s\<lparr>workers := (workers s)[k := w\<lparr>pending := False, pc := Drain\<rparr>],
                    trace := trace s @ [Ev_Clear k True]\<rparr>)
          else
            Some (s\<lparr>workers := (workers s)[k := w\<lparr>pc := Sem_Wait\<rparr>],
                    trace := trace s @ [Ev_Clear k False]\<rparr>)
      | Loop_Wait \<Rightarrow>
          if async_pending w then
            Some (s\<lparr>workers := (workers s)[k := w\<lparr>async_pending := False, pc := Drain\<rparr>],
                    trace := trace s @ [Ev_Wake k]\<rparr>)
          else None
      | Drain \<Rightarrow>
          (case dequeue (queue s) of
             None \<Rightarrow> Some (s\<lparr>workers := (workers s)[k := w\<lparr>pc := waiting (strategy cfg)\<rparr>]\<rparr>)
           | Some (v, q) \<Rightarrow>
               if v = sentinel then
                 Some (s\<lparr>queue := q, workers := (workers s)[k := w\<lparr>pc := Dump\<rparr>],
                         trace := trace s @ [Ev_Dequeue k v]\<rparr>)
               else
                 Some (s\<lparr>queue := q,
                         workers := (workers s)
                           [k := w\<lparr>histogram :=
                                     hdr_record_value (histogram w) (latency (uv_hrtime env) v)\<rparr>],
                         trace := trace s @ [Ev_Dequeue k v]\<rparr>))
      | Dump \<Rightarrow>
          Some (s\<lparr>workers := (workers s)[k := w\<lparr>pc := Terminated\<rparr>],
                  stdout := stdout s @ [dump (histogram w)],
                  trace := trace s @ [Ev_Dump k]\<rparr>)
      | Terminated \<Rightarrow> None)"

subsection \<open>Schedules\<close>

datatype thread = Driver | Worker nat

type_synonym action = "thread \<times> environment"

text \<open>
  After the failed assertion the process is gone: no thread moves. A worker that is not in
  the array does not exist.
\<close>

fun aborted :: "dpc \<Rightarrow> bool" where
  "aborted (D_Abort ph i) = True"
| "aborted _ = False"

fun step :: "config \<Rightarrow> action \<Rightarrow> state \<Rightarrow> state option" where
  "step cfg (Driver, env) s = driver_step cfg env s"
| "step cfg (Worker k, env) s =
     (if aborted (dpc s) \<or> \<not> k < length (workers s) then None
      else worker_step cfg k env s)"

fun run :: "config \<Rightarrow> action list \<Rightarrow> state \<Rightarrow> state option" where
  "run cfg [] s = Some s"
| "run cfg (a # as) s = (case step cfg a s of None \<Rightarrow> None | Some s' \<Rightarrow> run cfg as s')"

text \<open>A run is completed when \<^verbatim>\<open>run_test\<close> has returned.\<close>

definition completed :: "state \<Rightarrow> bool" where
  "completed s = (dpc s = D_Done)"

section \<open>What the statements speak about\<close>

text \<open>
  The number of samples in one worker's recorder and in all recorders together; the number
  of tokens other than the sentinel, and of sentinels, in a queue; and whether a worker
  has seen the sentinel (it stands at \<open>Dump\<close> or has terminated).
\<close>

definition recorded :: "worker \<Rightarrow> nat" where
  "recorded w = length (samples (histogram w))"

definition total_samples :: "state \<Rightarrow> nat" where
  "total_samples s = sum_list (map recorded (workers s))"

definition tokens_in :: "token list \<Rightarrow> nat" where
  "tokens_in q = length (filter (\<lambda>v. v \<noteq> sentinel) q)"

definition sentinels_in :: "token list \<Rightarrow> nat" where
  "sentinels_in q = length (filter (\<lambda>v. v = sentinel) q)"

definition stopped :: "worker \<Rightarrow> bool" where
  "stopped w = (pc w = Dump \<or> pc w = Terminated)"

text \<open>
  Counts over the history of a run: the tokens other than the sentinel that were enqueued,
  the sentinels that were enqueued, the sentinels worker \<open>k\<close> dequeued, the reports it
  printed, the last event in which it dequeued anything, the posts on its semaphore, the
  exchanges of its flag from true to false that succeeded (the wakes it consumed), and the
  exchanges from false to true that succeeded.
\<close>

fun is_token_enqueue :: "event \<Rightarrow> bool" where
  "is_token_enqueue (Ev_Enqueue v) = (v \<noteq> sentinel)"
| "is_token_enqueue _ = False"

definition sentinel_enqueues :: "event list \<Rightarrow> nat" where
  "sentinel_enqueues tr = length (filter (\<lambda>e. e = Ev_Enqueue sentinel) tr)"

definition sentinel_dequeues :: "nat \<Rightarrow> event list \<Rightarrow> nat" where
  "sentinel_dequeues k tr = length (filter (\<lambda>e. e = Ev_Dequeue k sentinel) tr)"

definition dumps :: "nat \<Rightarrow> event list \<Rightarrow> nat" where
  "dumps k tr = length (filter (\<lambda>e. e = Ev_Dump k) tr)"

fun dequeued_by :: "nat \<Rightarrow> event \<Rightarrow> bool" where
  "dequeued_by k (Ev_Dequeue j v) = (j = k)"
| "dequeued_by k _ = False"

definition last_dequeue :: "nat \<Rightarrow> event list \<Rightarrow> event option" where
  "last_dequeue k tr =
     (let es = filter (dequeued_by k) tr in if es = [] then None else Some (last es))"

definition posts :: "nat \<Rightarrow> event list \<Rightarrow> nat" where
  "posts k tr = length (filter (\<lambda>e. e = Ev_Post k) tr)"

definition clears :: "nat \<Rightarrow> event list \<Rightarrow> nat" where
  "clears k tr = length (filter (\<lambda>e. e = Ev_Clear k True) tr)"

definition sets_won :: "nat \<Rightarrow> event list \<Rightarrow> nat" where
  "sets_won k tr = length (filter (\<lambda>e. e = Ev_Set k True) tr)"

text \<open>
  What worker \<open>k\<close> last did at its semaphore and its flag: the last event of the history
  in which it returned from the wait or made the exchange of its flag from true to false.
\<close>

fun at_the_flag :: "nat \<Rightarrow> event \<Rightarrow> bool" where
  "at_the_flag k (Ev_Wake j) = (j = k)"
| "at_the_flag k (Ev_Clear j b) = (j = k)"
| "at_the_flag k _ = False"

definition last_wake_event :: "nat \<Rightarrow> event list \<Rightarrow> event option" where
  "last_wake_event k tr =
     (let es = filter (at_the_flag k) tr in if es = [] then None else Some (last es))"

section \<open>Invariants of a run\<close>

subsection \<open>Where the driver stands\<close>

text \<open>
  Functions of the driver's position alone: whether the loop counter is within the bound
  of its loop, how many tokens and how many sentinels the driver has enqueued when it
  stands there, whether a sentinel may already be in the queue, whether the throughput
  line has been printed, how many workers have been joined, and whether the driver is
  about to post the semaphore of worker \<open>k\<close>.
\<close>

fun bound :: "config \<Rightarrow> phase \<Rightarrow> nat" where
  "bound cfg Production = num_iterations cfg"
| "bound cfg Shutdown = num_threads cfg"

fun in_range :: "config \<Rightarrow> dpc \<Rightarrow> bool" where
  "in_range cfg (D_Init i) = (i < num_threads cfg)"
| "in_range cfg (D_Enqueue ph i) = (i < bound cfg ph)"
| "in_range cfg (D_Send ph i) = (i < bound cfg ph)"
| "in_range cfg (D_Set ph i t) = (i < bound cfg ph \<and> t < num_threads cfg)"
| "in_range cfg (D_Post ph i t) = (i < bound cfg ph \<and> t < num_threads cfg)"
| "in_range cfg (D_Join i) = (i < num_threads cfg)"
| "in_range cfg (D_Abort ph i) = (i < bound cfg ph)"
| "in_range cfg D_Start = True"
| "in_range cfg D_Report = True"
| "in_range cfg D_Done = True"

fun produced :: "config \<Rightarrow> dpc \<Rightarrow> nat" where
  "produced cfg (D_Init i) = 0"
| "produced cfg D_Start = 0"
| "produced cfg (D_Enqueue Production i) = i"
| "produced cfg (D_Send Production i) = Suc i"
| "produced cfg (D_Set Production i t) = Suc i"
| "produced cfg (D_Post Production i t) = Suc i"
| "produced cfg (D_Abort Production i) = i"
| "produced cfg (D_Enqueue Shutdown i) = num_iterations cfg"
| "produced cfg (D_Send Shutdown i) = num_iterations cfg"
| "produced cfg (D_Set Shutdown i t) = num_iterations cfg"
| "produced cfg (D_Post Shutdown i t) = num_iterations cfg"
| "produced cfg (D_Abort Shutdown i) = num_iterations cfg"
| "produced cfg D_Report = num_iterations cfg"
| "produced cfg (D_Join i) = num_iterations cfg"
| "produced cfg D_Done = num_iterations cfg"

fun sentinels_sent :: "config \<Rightarrow> dpc \<Rightarrow> nat" where
  "sentinels_sent cfg (D_Enqueue Shutdown i) = i"
| "sentinels_sent cfg (D_Abort Shutdown i) = i"
| "sentinels_sent cfg (D_Send Shutdown i) = Suc i"
| "sentinels_sent cfg (D_Set Shutdown i t) = Suc i"
| "sentinels_sent cfg (D_Post Shutdown i t) = Suc i"
| "sentinels_sent cfg (D_Join i) = num_threads cfg"
| "sentinels_sent cfg D_Done = num_threads cfg"
| "sentinels_sent cfg _ = 0"

fun shutting :: "dpc \<Rightarrow> bool" where
  "shutting (D_Init i) = False"
| "shutting D_Start = False"
| "shutting (D_Enqueue Production i) = False"
| "shutting (D_Send Production i) = False"
| "shutting (D_Set Production i t) = False"
| "shutting (D_Post Production i t) = False"
| "shutting (D_Abort Production i) = False"
| "shutting D_Report = False"
| "shutting (D_Enqueue Shutdown i) = (0 < i)"
| "shutting (D_Abort Shutdown i) = (0 < i)"
| "shutting (D_Send Shutdown i) = True"
| "shutting (D_Set Shutdown i t) = True"
| "shutting (D_Post Shutdown i t) = True"
| "shutting (D_Join i) = True"
| "shutting D_Done = True"

fun reported :: "dpc \<Rightarrow> bool" where
  "reported (D_Enqueue Shutdown i) = True"
| "reported (D_Send Shutdown i) = True"
| "reported (D_Set Shutdown i t) = True"
| "reported (D_Post Shutdown i t) = True"
| "reported (D_Abort Shutdown i) = True"
| "reported (D_Join i) = True"
| "reported D_Done = True"
| "reported _ = False"

fun joined :: "config \<Rightarrow> dpc \<Rightarrow> nat" where
  "joined cfg (D_Join i) = i"
| "joined cfg D_Done = num_threads cfg"
| "joined cfg _ = 0"

fun posting :: "nat \<Rightarrow> dpc \<Rightarrow> nat" where
  "posting k (D_Post ph i t) = (if t = k then 1 else 0)"
| "posting k _ = 0"

subsection \<open>What holds in every state of a run\<close>

text \<open>
  \<^item> \<open>shape\<close>: the array has \<^verbatim>\<open>NUM_THREADS\<close> workers and the loop counters are in range.
  \<^item> \<open>accounted\<close>: every token enqueued so far is in a recorder or still in the queue.
  \<^item> \<open>logged\<close>: the history shows as many enqueued tokens as the driver's position says.
  \<^item> \<open>quiet\<close>: before the first sentinel is enqueued, no sentinel is in the queue and no
    worker has stopped.
  \<^item> \<open>sentinel_tail\<close>: behind a sentinel the queue holds only sentinels.
  \<^item> \<open>drained\<close>: once a worker has stopped, the queue holds no token but sentinels.
  \<^item> \<open>joined_up\<close>: the workers already joined have terminated.
  \<^item> \<open>handed_out\<close>: every sentinel enqueued so far is in the queue or has stopped one
    worker.
  \<^item> \<open>sentinels_logged\<close>: the history shows as many enqueued sentinels as the driver's
    position says.
\<close>

definition shape :: "config \<Rightarrow> state \<Rightarrow> bool" where
  "shape cfg s = (length (workers s) = num_threads cfg \<and> in_range cfg (dpc s))"

definition accounted :: "config \<Rightarrow> state \<Rightarrow> bool" where
  "accounted cfg s = (total_samples s + tokens_in (queue s) = produced cfg (dpc s))"

definition logged :: "config \<Rightarrow> state \<Rightarrow> bool" where
  "logged cfg s = (length (filter is_token_enqueue (trace s)) = produced cfg (dpc s))"

definition quiet :: "state \<Rightarrow> bool" where
  "quiet s =
     (\<not> shutting (dpc s) \<longrightarrow>
        sentinel \<notin> set (queue s) \<and> (\<forall>j<length (workers s). \<not> stopped (workers s ! j)))"

fun sentinel_tail :: "token list \<Rightarrow> bool" where
  "sentinel_tail [] = True"
| "sentinel_tail (v # q) = ((v = sentinel \<longrightarrow> tokens_in q = 0) \<and> sentinel_tail q)"

definition drained :: "state \<Rightarrow> bool" where
  "drained s = ((\<exists>j<length (workers s). stopped (workers s ! j)) \<longrightarrow> tokens_in (queue s) = 0)"

definition joined_up :: "config \<Rightarrow> state \<Rightarrow> bool" where
  "joined_up cfg s = (\<forall>j<joined cfg (dpc s). pc (workers s ! j) = Terminated)"

definition halted :: "worker \<Rightarrow> nat" where
  "halted w = (if stopped w then 1 else 0)"

definition handed_out :: "config \<Rightarrow> state \<Rightarrow> bool" where
  "handed_out cfg s =
     (sentinels_in (queue s) + sum_list (map halted (workers s)) = sentinels_sent cfg (dpc s))"

definition invariant :: "config \<Rightarrow> state \<Rightarrow> bool" where
  "invariant cfg s =
     (shape cfg s \<and> accounted cfg s \<and> logged cfg s \<and> quiet s \<and> sentinel_tail (queue s) \<and>
      drained s \<and> joined_up cfg s \<and> handed_out cfg s)"

definition sentinels_logged :: "config \<Rightarrow> state \<Rightarrow> bool" where
  "sentinels_logged cfg s =
     (shape cfg s \<and> sentinel_enqueues (trace s) = sentinels_sent cfg (dpc s))"

text \<open>
  \<^item> \<open>unstarted\<close>: while the driver initialises worker \<open>i\<close>, the workers from \<open>i\<close> on
    have no thread yet.
  \<^item> \<open>one_sentinel\<close>: worker \<open>k\<close> has dequeued one sentinel if it has stopped and none
    otherwise, has printed one report if it has terminated and none otherwise, and if it
    has stopped, the sentinel is the last token it dequeued.
  \<^item> \<open>coalesced\<close>: the pending flag of worker \<open>k\<close> is set exactly when one wake is on its
    way (the driver is about to post, or the semaphore holds 1, or the worker has returned
    from the wait and not yet cleared the flag), and never more than one is; every post
    is matched by a wake consumed or on its way, and every won exchange by a post.
\<close>

definition unstarted :: "state \<Rightarrow> bool" where
  "unstarted s =
     (\<forall>i. dpc s = D_Init i \<longrightarrow> (\<forall>j<length (workers s). i \<le> j \<longrightarrow> pc (workers s ! j) = Created))"

definition one_sentinel :: "nat \<Rightarrow> state \<Rightarrow> bool" where
  "one_sentinel k s =
     (sentinel_dequeues k (trace s) = (if stopped (workers s ! k) then 1 else 0) \<and>
      dumps k (trace s) = (if pc (workers s ! k) = Terminated then 1 else 0) \<and>
      (stopped (workers s ! k) \<longrightarrow> last_dequeue k (trace s) = Some (Ev_Dequeue k sentinel)))"

definition woken :: "worker \<Rightarrow> nat" where
  "woken w = (if pc w = Sem_Clear then 1 else 0)"

definition flagged :: "worker \<Rightarrow> nat" where
  "flagged w = (if pending w then 1 else 0)"

definition coalesced :: "nat \<Rightarrow> state \<Rightarrow> bool" where
  "coalesced k s =
     (let w = workers s ! k in
      flagged w = sem w + woken w + posting k (dpc s) \<and>
      posts k (trace s) = clears k (trace s) + sem w + woken w \<and>
      sets_won k (trace s) = posts k (trace s) + posting k (dpc s))"

definition history :: "config \<Rightarrow> state \<Rightarrow> bool" where
  "history cfg s =
     (length (workers s) = num_threads cfg \<and> unstarted s \<and>
      (\<forall>k<num_threads cfg. one_sentinel k s \<and> coalesced k s))"

text \<open>
  \<open>gated\<close>, for the blocking-wait strategy: worker \<open>k\<close> stands at the exchange exactly
  when the last it did was to return from the wait, and it stands at \<open>Drain\<close> or has
  stopped only when the last it did was an exchange that succeeded.
\<close>

definition gated :: "nat \<Rightarrow> state \<Rightarrow> bool" where
  "gated k s =
     (let w = workers s ! k; e = last_wake_event k (trace s) in
      pc w \<noteq> Loop_Wait \<and>
      (pc w = Sem_Clear) = (e = Some (Ev_Wake k)) \<and>
      (pc w = Drain \<or> stopped w \<longrightarrow> e = Some (Ev_Clear k True)))"

text \<open>
  \<open>printed\<close>: standard output is the throughput line, if the driver has passed it,
  followed by the reports of the workers that have terminated, each once.
\<close>

definition header :: "config \<Rightarrow> state \<Rightarrow> line list" where
  "header cfg s =
     (if reported (dpc s)
      then [throughput_line (name cfg) (elapsed s) (num_iterations cfg)] else [])"

definition reports :: "state \<Rightarrow> nat list \<Rightarrow> line list" where
  "reports s p = map (\<lambda>k. dump (histogram (workers s ! k))) p"

definition printed :: "config \<Rightarrow> state \<Rightarrow> bool" where
  "printed cfg s =
     (\<exists>p. distinct p \<and> set p = {k. k < length (workers s) \<and> pc (workers s ! k) = Terminated} \<and>
          stdout s = header cfg s @ reports s p)"

definition settled :: "config \<Rightarrow> state \<Rightarrow> bool" where
  "settled cfg s = (invariant cfg s \<and> printed cfg s)"

text \<open>
  \<open>tallied\<close>: standard output without the throughput line is the list of the reports of
  the workers that have terminated, each once; the throughput line, if the driver has
  passed it, stands somewhere among them.
\<close>

definition tallied :: "config \<Rightarrow> state \<Rightarrow> bool" where
  "tallied cfg s =
     (\<exists>p pre post.
        distinct p \<and> set p = {k. k < length (workers s) \<and> pc (workers s ! k) = Terminated} \<and>
        stdout s = pre @ header cfg s @ post \<and> pre @ post = reports s p)"

section \<open>Runs used as examples\<close>

text \<open>The environment in which every libuv call succeeds and the clock reads \<open>t\<close>.\<close>

definition at_time :: "token \<Rightarrow> environment" where
  "at_time t =
     \<lparr>uv_hrtime = t, uv_sem_init = 0, uv_loop_init = 0, uv_async_init = 0,
      uv_thread_create = 0\<rparr>"

text \<open>
  One worker and one token. The schedule for the blocking-wait strategy lets the driver
  produce the token, the worker record it, the driver enqueue the sentinel, the worker
  stop and report, and the driver join. In the schedules for the other two strategies the
  driver enqueues the token and the sentinel before the worker takes its first step.
\<close>

definition tiny :: "strategy \<Rightarrow> config" where
  "tiny st = \<lparr>strategy = st, name = ''tiny'', num_threads = 1, num_iterations = 1, capacity = 2\<rparr>"

definition tiny_sem_schedule :: "action list" where
  "tiny_sem_schedule =
     [(Driver, at_time 0), (Driver, at_time 10), (Driver, at_time 20), (Driver, at_time 30),
      (Driver, at_time 40), (Driver, at_time 50),
      (Worker 0, at_time 60), (Worker 0, at_time 70), (Worker 0, at_time 80),
      (Worker 0, at_time 90),
      (Driver, at_time 100), (Driver, at_time 110), (Driver, at_time 120),
      (Driver, at_time 130), (Driver, at_time 140),
      (Worker 0, at_time 150), (Worker 0, at_time 160), (Worker 0, at_time 170),
      (Worker 0, at_time 180),
      (Driver, at_time 190)]"

definition tiny_busy_schedule :: "action list" where
  "tiny_busy_schedule =
     [(Driver, at_time 0), (Driver, at_time 10), (Driver, at_time 20), (Driver, at_time 30),
      (Driver, at_time 40), (Driver, at_time 50), (Driver, at_time 60),
      (Worker 0, at_time 70), (Worker 0, at_time 80), (Worker 0, at_time 90),
      (Driver, at_time 100)]"

definition tiny_loop_schedule :: "action list" where
  "tiny_loop_schedule =
     [(Driver, at_time 0), (Driver, at_time 10), (Driver, at_time 20), (Driver, at_time 30),
      (Driver, at_time 40), (Driver, at_time 50), (Driver, at_time 60),
      (Worker 0, at_time 70), (Worker 0, at_time 80), (Worker 0, at_time 90),
      (Worker 0, at_time 100),
      (Driver, at_time 110)]"

text \<open>
  One blocking-wait worker and three tokens: after the initialisation (\<open>burst_prefix\<close>)
  the driver enqueues and sends three times in a row while the worker does not run.
\<close>

definition burst :: config where
  "burst = \<lparr>strategy = Sem, name = ''burst'', num_threads = 1, num_iterations = 3, capacity = 4\<rparr>"

definition burst_prefix :: "action list" where
  "burst_prefix = [(Driver, at_time 0), (Driver, at_time 0)]"

definition burst_sends :: "action list" where
  "burst_sends =
     [(Driver, at_time 1), (Driver, at_time 1), (Driver, at_time 1), (Driver, at_time 1),
      (Driver, at_time 2), (Driver, at_time 2),
      (Driver, at_time 3), (Driver, at_time 3)]"

text \<open>
  One blocking-wait worker and one token, up to the point where the worker has just
  returned from the wait with its flag set.
\<close>

definition wake_schedule :: "action list" where
  "wake_schedule =
     [(Driver, at_time 0), (Driver, at_time 0), (Driver, at_time 1), (Driver, at_time 1),
      (Driver, at_time 1), (Driver, at_time 1), (Worker 0, at_time 2)]"

text \<open>The same run one step later: the worker has cleared its flag and stands at \<open>Drain\<close>.\<close>

definition drain_schedule :: "action list" where
  "drain_schedule = wake_schedule @ [(Worker 0, at_time 3)]"

text \<open>
  A state in which a worker has returned from the wait with its flag clear. No run reaches
  such a state; it is there to show the branch of the failed exchange.
\<close>

definition spurious_state :: state where
  "spurious_state = (initial (tiny Sem))\<lparr>workers := [BaseWorker\<lparr>pc := Sem_Clear\<rparr>]\<rparr>"

text \<open>
  \<^verbatim>\<open>uv_sem_init\<close> fails with \<open>- 12\<close> for worker 0 of the blocking-wait run of the build; the
  schedule then lets the driver alone take eight more steps.
\<close>

definition failing_env :: environment where
  "failing_env = (at_time 0)\<lparr>uv_sem_init := - 12\<rparr>"

definition init_failure_schedule :: "action list" where
  "init_failure_schedule =
     [(Driver, failing_env), (Driver, at_time 0), (Driver, at_time 0), (Driver, at_time 0),
      (Driver, at_time 5), (Driver, at_time 7), (Driver, at_time 8), (Driver, at_time 8),
      (Driver, at_time 8)]"

text \<open>
  A schedule of the blocking-wait run of the build that ends in a state where nothing can
  move. \<open>hang_setup\<close> initialises the four workers and runs the first five iterations,
  with worker 0 woken once and then dequeuing each token; it ends in \<open>steady 5\<close>: every
  flag set, every semaphore at 1, worker 0 in its drain loop, the others waiting. In
  \<open>hang_round\<close> the driver enqueues one token and calls \<open>send\<close>, which returns early, and
  worker 0 dequeues the token; this is repeated for the remaining iterations.
  \<open>hang_endgame\<close> is the shutdown; \<open>hang_endgame_events\<close> is what it adds to the history.
\<close>

definition flagged_idle :: worker where
  "flagged_idle = BaseWorker\<lparr>pc := Sem_Wait, pending := True, sem := 1\<rparr>"

definition steady :: "nat \<Rightarrow> hdr_histogram \<Rightarrow> event list \<Rightarrow> state" where
  "steady i h tr =
     \<lparr>queue = [],
      workers = [\<lparr>pc = Drain, histogram = h, pending = True, sem = 1, async_pending = False\<rparr>,
                 flagged_idle, flagged_idle, flagged_idle],
      dpc = production_loop run_sem_test i,
      index = of_nat i, start = 1, elapsed = 0, stdout = [], trace = tr\<rparr>"

definition hang_setup :: "action list" where
  "hang_setup =
     [(Driver, at_time 0), (Driver, at_time 0), (Driver, at_time 0), (Driver, at_time 0),
      (Driver, at_time 1),
      (Driver, at_time 1), (Driver, at_time 1), (Driver, at_time 1), (Driver, at_time 1),
      (Worker 0, at_time 1), (Worker 0, at_time 1), (Worker 0, at_time 1),
      (Driver, at_time 1), (Driver, at_time 1), (Driver, at_time 1), (Driver, at_time 1),
      (Worker 0, at_time 1),
      (Driver, at_time 1), (Driver, at_time 1), (Driver, at_time 1), (Driver, at_time 1),
      (Worker 0, at_time 1),
      (Driver, at_time 1), (Driver, at_time 1), (Driver, at_time 1), (Driver, at_time 1),
      (Worker 0, at_time 1),
      (Driver, at_time 1), (Driver, at_time 1), (Driver, at_time 1), (Driver, at_time 1),
      (Worker 0, at_time 1)]"

definition hang_round :: "action list" where
  "hang_round = [(Driver, at_time 1), (Driver, at_time 1), (Worker 0, at_time 1)]"

definition hang_endgame :: "action list" where
  "hang_endgame =
     [(Driver, at_time 2),
      (Driver, at_time 2), (Driver, at_time 2), (Driver, at_time 2), (Driver, at_time 2),
      (Worker 0, at_time 2), (Worker 0, at_time 2),
      (Worker 2, at_time 2), (Worker 2, at_time 2), (Worker 2, at_time 2), (Worker 2, at_time 2),
      (Worker 1, at_time 2), (Worker 1, at_time 2), (Worker 1, at_time 2),
      (Driver, at_time 2), (Driver, at_time 2), (Driver, at_time 2), (Driver, at_time 2),
      (Driver, at_time 2), (Driver, at_time 2),
      (Worker 3, at_time 2), (Worker 3, at_time 2), (Worker 3, at_time 2), (Worker 3, at_time 2),
      (Driver, at_time 2)]"

definition hang_endgame_events :: "event list" where
  "hang_endgame_events =
     [Ev_Enqueue sentinel, Ev_Send 0, Ev_Enqueue sentinel, Ev_Send 1,
      Ev_Dequeue 0 sentinel, Ev_Dump 0,
      Ev_Wake 2, Ev_Clear 2 True, Ev_Dequeue 2 sentinel, Ev_Dump 2,
      Ev_Wake 1, Ev_Clear 1 True,
      Ev_Enqueue sentinel, Ev_Send 2, Ev_Set 2 True, Ev_Post 2, Ev_Enqueue sentinel, Ev_Send 3,
      Ev_Wake 3, Ev_Clear 3 True, Ev_Dequeue 3 sentinel, Ev_Dump 3,
      Ev_Join 0]"

definition hang_schedule :: "action list" where
  "hang_schedule =
     hang_setup @ concat (replicate (NUM_ITERATIONS - 5) hang_round) @ hang_endgame"

text \<open>
  A schedule of the busy-poll run of the build in which no worker is scheduled during the
  measured loop: after the initialisation the driver enqueues and calls \<open>send\<close>, again and
  again. \<open>filling i\<close> is the state after \<open>i\<close> iterations.
\<close>

definition polling :: worker where
  "polling = BaseWorker\<lparr>pc := Drain\<rparr>"

definition filling :: "nat \<Rightarrow> event list \<Rightarrow> state" where
  "filling i tr =
     \<lparr>queue = replicate i 1, workers = [polling, polling, polling, polling],
      dpc = production_loop run_busy_test i,
      index = of_nat i, start = 1, elapsed = 0, stdout = [], trace = tr\<rparr>"

definition overflow_setup :: "action list" where
  "overflow_setup =
     [(Driver, at_time 0), (Driver, at_time 0), (Driver, at_time 0), (Driver, at_time 0),
      (Driver, at_time 1)]"

definition overflow_round :: "action list" where
  "overflow_round = [(Driver, at_time 1), (Driver, at_time 1)]"

definition overflow_schedule :: "action list" where
  "overflow_schedule =
     overflow_setup @ concat (replicate queue_size overflow_round) @ [(Driver, at_time 1)]"

section \<open>Properties of \<open>next_pow_2\<close>\<close>

lemma loop_stop: "\<not> next < num \<Longrightarrow> next_pow_2_loop num next i = Inr next"
  by (simp add: next_pow_2_loop.simps)

lemma loop_step:
  "next < num \<Longrightarrow> i < 64 \<Longrightarrow>
   next_pow_2_loop num next i = next_pow_2_loop num (2 ^ i) (Suc i)"
  by (subst next_pow_2_loop.simps) simp

lemma loop_fault:
  "next < num \<Longrightarrow> \<not> i < 64 \<Longrightarrow> next_pow_2_loop num next i = Inl Shift_Out_Of_Range"
  by (subst next_pow_2_loop.simps) simp

lemma unat_pow2: "k < 64 \<Longrightarrow> unat ((2::size_t) ^ k) = 2 ^ k"
proof -
  assume k: "k < 64"
  have "(2::size_t) ^ k = of_nat (2 ^ k)" by simp
  then have "unat ((2::size_t) ^ k) = 2 ^ k mod 2 ^ 64"
    by (simp only: unat_of_nat) simp
  moreover have "(2::nat) ^ k < 2 ^ 64" using k by (intro power_strict_increasing) auto
  ultimately show ?thesis by simp
qed

lemma pow2_le_iff: "k < 64 \<Longrightarrow> (num \<le> (2::size_t) ^ k) = (unat num \<le> 2 ^ k)"
  by (simp add: word_le_nat_alt unat_pow2)

lemma pow2_less_iff: "k < 64 \<Longrightarrow> ((2::size_t) ^ k < num) = (2 ^ k < unat num)"
  by (simp add: word_less_nat_alt unat_pow2)

lemma pow2_mono: "j < 64 \<Longrightarrow> k \<le> j \<Longrightarrow> (2::size_t) ^ k \<le> 2 ^ j"
  by (simp add: word_le_nat_alt unat_pow2)

text \<open>
  After the first round the loop holds \<open>next = 2 ^ i\<close> with the counter at \<open>i + 1\<close>. It
  climbs to the least exponent \<open>k\<close> whose power reaches \<open>num\<close>.
\<close>

lemma loop_climb:
  assumes "k < 64" "unat num \<le> 2 ^ k" "\<forall>j<k. 2 ^ j < unat num"
  shows "i \<le> k \<Longrightarrow> next_pow_2_loop num (2 ^ i) (Suc i) = Inr (2 ^ k)"
proof (induction "k - i" arbitrary: i)
  case 0
  then have "i = k" by simp
  with assms show ?case by (simp add: loop_stop pow2_less_iff)
next
  case (Suc d)
  then have lt: "i < k" by simp
  with assms have "(2::size_t) ^ i < num" by (simp add: pow2_less_iff)
  moreover from lt assms have "Suc i < 64" by simp
  ultimately have
    "next_pow_2_loop num (2 ^ i) (Suc i) = next_pow_2_loop num (2 ^ Suc i) (Suc (Suc i))"
    by (rule loop_step)
  also have "\<dots> = Inr (2 ^ k)" using Suc lt by (intro Suc.hyps(1)) auto
  finally show ?case .
qed

text \<open>Above \<open>2 ^ 63\<close> no power of two reaches \<open>num\<close>, and the loop arrives at the shift by 64.\<close>

lemma loop_overflow:
  assumes "2 ^ 63 < unat num"
  shows "i \<le> 63 \<Longrightarrow> next_pow_2_loop num (2 ^ i) (Suc i) = Inl Shift_Out_Of_Range"
proof (induction "63 - i" arbitrary: i)
  case 0
  then have "i = 63" by simp
  moreover have "(2::size_t) ^ 63 < num" using assms pow2_less_iff [of 63 num] by simp
  ultimately show ?case by (simp add: loop_fault)
next
  case (Suc d)
  then have lt: "i < 63" by simp
  have "(2::nat) ^ i < 2 ^ 63" using lt by (intro power_strict_increasing) auto
  with assms have "2 ^ i < unat num" by (rule less_trans [rotated])
  with lt have "(2::size_t) ^ i < num" by (simp add: pow2_less_iff)
  moreover from lt have "Suc i < 64" by simp
  ultimately have
    "next_pow_2_loop num (2 ^ i) (Suc i) = next_pow_2_loop num (2 ^ Suc i) (Suc (Suc i))"
    by (rule loop_step)
  also have "\<dots> = Inl Shift_Out_Of_Range" using Suc lt by (intro Suc.hyps(1)) auto
  finally show ?case .
qed

lemma next_pow_2_small: "num \<le> 2 \<Longrightarrow> next_pow_2 num = Inr 2"
  by (simp add: next_pow_2_def loop_stop)

lemma next_pow_2_large:
  assumes "2 < num" "k < 64" "unat num \<le> 2 ^ k" "\<forall>j<k. 2 ^ j < unat num"
  shows "next_pow_2 num = Inr (2 ^ k)"
proof -
  have "next_pow_2 num = next_pow_2_loop num (2 ^ 0) (Suc 0)"
    unfolding next_pow_2_def using assms(1) by (rule loop_step) simp
  also have "\<dots> = Inr (2 ^ k)"
    using assms(2-4) by (rule loop_climb) simp
  finally show ?thesis .
qed

lemma next_pow_2_overflow:
  assumes "2 ^ 63 < num"
  shows "next_pow_2 num = Inl Shift_Out_Of_Range"
proof -
  have big: "2 ^ 63 < unat num" using assms pow2_less_iff [of 63 num] by simp
  then have "2 < unat num" by simp
  then have "2 < num" by (simp add: word_less_nat_alt)
  then have "next_pow_2 num = next_pow_2_loop num (2 ^ 0) (Suc 0)"
    unfolding next_pow_2_def by (rule loop_step) simp
  also have "\<dots> = Inl Shift_Out_Of_Range"
    using big by (rule loop_overflow) simp
  finally show ?thesis .
qed

lemma next_pow_2_fixed:
  assumes "1 \<le> k" "k < 64"
  shows "next_pow_2 (2 ^ k) = Inr (2 ^ k)"
proof (cases "k = 1")
  case True
  then show ?thesis using next_pow_2_small [of 2] by simp
next
  case False
  with assms have "1 < k" by simp
  then have "(2::nat) ^ 1 < 2 ^ k" by (intro power_strict_increasing) auto
  then have "2 < unat ((2::size_t) ^ k)" using assms by (simp add: unat_pow2)
  then have gt: "2 < (2::size_t) ^ k" by (simp add: word_less_nat_alt)
  have "\<forall>j<k. (2::nat) ^ j < 2 ^ k" by (auto intro: power_strict_increasing)
  then have "\<forall>j<k. 2 ^ j < unat ((2::size_t) ^ k)" using assms by (simp add: unat_pow2)
  moreover have "unat ((2::size_t) ^ k) \<le> 2 ^ k" using assms by (simp add: unat_pow2)
  ultimately show ?thesis using gt assms(2) by (intro next_pow_2_large) auto
qed

lemma next_pow_2_least:
  assumes "num \<le> 2 ^ 63"
  shows "\<exists>k. 1 \<le> k \<and> k < 64 \<and> next_pow_2 num = Inr (2 ^ k) \<and> max num 2 \<le> 2 ^ k \<and>
           (\<forall>j<64. max num 2 \<le> 2 ^ j \<longrightarrow> (2::size_t) ^ k \<le> 2 ^ j)"
proof (cases "num \<le> 2")
  case True
  have "\<And>j. j < 64 \<Longrightarrow> (2::size_t) \<le> 2 ^ j \<Longrightarrow> (2::size_t) ^ 1 \<le> 2 ^ j" by simp
  with True show ?thesis
    by (intro exI [of _ 1]) (simp add: next_pow_2_small max_def)
next
  case False
  then have gt: "2 < num" by simp
  then have gtn: "2 < unat num" by (simp add: word_less_nat_alt)
  have le63: "unat num \<le> 2 ^ 63" using assms pow2_le_iff [of 63 num] by simp
  define k where "k = (LEAST k. unat num \<le> 2 ^ k)"
  have kle: "unat num \<le> 2 ^ k" unfolding k_def using le63 by (rule LeastI)
  have k63: "k \<le> 63" unfolding k_def using le63 by (rule Least_le)
  have kmin: "\<And>j. unat num \<le> 2 ^ j \<Longrightarrow> k \<le> j" unfolding k_def by (rule Least_le)
  have below: "\<forall>j<k. 2 ^ j < unat num"
  proof (intro allI impI)
    fix j assume "j < k"
    then have "\<not> unat num \<le> 2 ^ j" using kmin [of j] by auto
    then show "2 ^ j < unat num" by simp
  qed
  have k1: "1 \<le> k"
  proof (rule ccontr)
    assume "\<not> 1 \<le> k"
    then have "k = 0" by simp
    with kle gtn show False by simp
  qed
  have res: "next_pow_2 num = Inr (2 ^ k)"
    using gt _ kle below by (rule next_pow_2_large) (use k63 in simp)
  have mx: "max num 2 = num" using False by (simp add: max_def)
  have ge: "max num 2 \<le> 2 ^ k"
    using kle k63 by (simp add: mx pow2_le_iff)
  have least: "\<forall>j<64. max num 2 \<le> 2 ^ j \<longrightarrow> (2::size_t) ^ k \<le> 2 ^ j"
  proof (intro allI impI)
    fix j :: nat assume j: "j < 64" and "max num 2 \<le> 2 ^ j"
    then have "num \<le> 2 ^ j" by (simp only: mx)
    then have "unat num \<le> 2 ^ j" using j by (simp add: pow2_le_iff)
    then have "k \<le> j" by (rule kmin)
    with j show "(2::size_t) ^ k \<le> 2 ^ j" by (rule pow2_mono)
  qed
  from k1 k63 res ge least show ?thesis by (intro exI [of _ k]) simp
qed

text \<open>
  C10, as the code has it. For every \<open>num\<close> up to \<open>2 ^ 63\<close>, \<open>next_pow_2 num\<close> returns a power
  of two \<open>2 ^ k\<close> with \<open>1 \<le> k \<le> 63\<close> that is at least \<open>max num 2\<close> and is below or equal to
  every other power of two of the type that is at least \<open>max num 2\<close>; it returns 2 for
  \<open>num \<le> 2\<close>, and \<open>num\<close> itself when \<open>num\<close> is a power of two that is at least 2. For
  \<open>num\<close> above \<open>2 ^ 63\<close> the loop reaches the shift by 64 and returns nothing.
\<close>

theorem next_pow_2_smallest_power:
  "(num \<le> 2 ^ 63 \<longrightarrow>
      (\<exists>k. 1 \<le> k \<and> k < 64 \<and> next_pow_2 num = Inr (2 ^ k) \<and> max num 2 \<le> 2 ^ k \<and>
           (\<forall>j<64. max num 2 \<le> 2 ^ j \<longrightarrow> (2::size_t) ^ k \<le> 2 ^ j)) \<and>
      (num \<le> 2 \<longrightarrow> next_pow_2 num = Inr 2) \<and>
      (\<forall>k. 1 \<le> k \<and> k < 64 \<and> num = 2 ^ k \<longrightarrow> next_pow_2 num = Inr num)) \<and>
   (2 ^ 63 < num \<longrightarrow> next_pow_2 num = Inl Shift_Out_Of_Range)"
proof (intro conjI impI allI)
  assume "num \<le> 2 ^ 63"
  then show "\<exists>k. 1 \<le> k \<and> k < 64 \<and> next_pow_2 num = Inr (2 ^ k) \<and> max num 2 \<le> 2 ^ k \<and>
           (\<forall>j<64. max num 2 \<le> 2 ^ j \<longrightarrow> (2::size_t) ^ k \<le> 2 ^ j)"
    by (rule next_pow_2_least)
next
  assume "num \<le> 2"
  then show "next_pow_2 num = Inr 2" by (rule next_pow_2_small)
next
  fix k assume "1 \<le> k \<and> k < 64 \<and> num = 2 ^ k"
  then show "next_pow_2 num = Inr num" using next_pow_2_fixed [of k] by simp
next
  assume "2 ^ 63 < num"
  then show "next_pow_2 num = Inl Shift_Out_Of_Range" by (rule next_pow_2_overflow)
qed

theorem next_pow_2_smallest_power_witness:
  "(5::size_t) \<le> 2 ^ 63 \<and> next_pow_2 5 = Inr 8 \<and> next_pow_2 2 = Inr 2 \<and>
   next_pow_2 (2 ^ 63 + 2) = Inl Shift_Out_Of_Range"
proof -
  have five: "(5::size_t) \<le> 2 ^ 63" by simp
  from next_pow_2_smallest_power [of 5] five obtain k where
    k: "k < 64" "next_pow_2 5 = Inr (2 ^ k)" "(5::size_t) \<le> 2 ^ k"
       "\<forall>j<64. (5::size_t) \<le> 2 ^ j \<longrightarrow> (2::size_t) ^ k \<le> 2 ^ j"
    by (auto simp: max_def)
  from k(4) have "(2::size_t) ^ k \<le> 2 ^ 3" by (rule allE [of _ 3]) simp
  then have "(2::nat) ^ k \<le> 2 ^ 3" using k(1) pow2_le_iff [of 3 "2 ^ k"] by (simp add: unat_pow2)
  then have "k \<le> 3" by (rule power_le_imp_le_exp [rotated]) simp
  moreover have "k \<noteq> 0" using k(3) by (rule contrapos_pn) (simp add: word_le_nat_alt)
  moreover have "k \<noteq> 1" using k(3) by (rule contrapos_pn) (simp add: word_le_nat_alt)
  moreover have "k \<noteq> 2" using k(3) by (rule contrapos_pn) (simp add: word_le_nat_alt)
  ultimately have "k = 3" by arith
  with k(2) have a: "next_pow_2 5 = Inr 8" by simp
  have b: "next_pow_2 2 = Inr 2" using next_pow_2_smallest_power [of 2] by simp
  have d: "next_pow_2 (2 ^ 63 + 2) = Inl Shift_Out_Of_Range"
    using next_pow_2_smallest_power [of "2 ^ 63 + 2"] by simp
  from five a b d show ?thesis by blast
qed

text \<open>
  C10, as stated, asks for a power of two at least \<open>num\<close> for every input. At
  \<open>num = 2 ^ 63 + 1\<close> the function returns no value.
\<close>

theorem next_pow_2_counterexample:
  "next_pow_2 (2 ^ 63 + 1) = Inl Shift_Out_Of_Range"
  by (rule next_pow_2_overflow) simp

section \<open>The build-time parameters\<close>

text \<open>
  C6, as the code has it. The queue is constructed with room for 8388608 tokens and the
  measured loop enqueues 10000000: the capacity is strictly below the iteration count, and
  rounding the capacity with \<open>next_pow_2\<close> leaves it as it is.
\<close>

theorem capacity_below_iterations:
  "queue_size = 8388608 \<and> NUM_ITERATIONS = 10000000 \<and> queue_size < NUM_ITERATIONS \<and>
   next_pow_2 (of_nat queue_size) = Inr (of_nat queue_size)"
proof -
  have "next_pow_2 (2 ^ 23) = Inr (2 ^ 23)"
    by (rule next_pow_2_fixed) simp_all
  then show ?thesis by (simp add: queue_size_def NUM_ITERATIONS_def)
qed

text \<open>C6, as stated: the capacity exceeds the iteration count. It does not.\<close>

theorem capacity_exceeds_iterations_counterexample:
  "\<not> NUM_ITERATIONS < queue_size"
  by (simp add: queue_size_def NUM_ITERATIONS_def)

text \<open>
  C7. The recorder of a freshly constructed worker tracks values from 1 up to
  3600000000 nanoseconds, which is 3.6 seconds, at 3 significant figures; one hour is
  3600000000000 nanoseconds. A sample of 4 seconds is recorded as 3600000000.
\<close>

theorem recorder_range:
  "lowest_trackable_value (histogram BaseWorker) = 1 \<and>
   significant_figures (histogram BaseWorker) = 3 \<and>
   highest_trackable_value (histogram BaseWorker) = 3600000000 \<and>
   highest_trackable_value (histogram BaseWorker) \<noteq> 3600000000000 \<and>
   samples (hdr_record_value (histogram BaseWorker) 4000000000) = [3600000000]"
  by (simp add: BaseWorker_def hdr_init_def hdr_record_value_def HIGHEST_TRACKABLE_VALUE_def)

section \<open>The steps, case by case\<close>

lemma driver_stepE [consumes 1, case_names Init Start Enqueue Full Send_Busy Send_Loop Send_Sem Set_Lost Set_Won Post Report Join]:
  assumes "driver_step cfg env s = Some s'"
  obtains
    (Init) i where "dpc s = D_Init i" "i < length (workers s)"
      "s' = s\<lparr>workers := (workers s)
                 [i := (workers s ! i)\<lparr>pc := (if init (strategy cfg) env = 0
                                              then waiting (strategy cfg) else Created)\<rparr>],
               dpc := init_loop cfg (Suc i),
               trace := trace s @ [Ev_Init i (init (strategy cfg) env)]\<rparr>"
  | (Start) "dpc s = D_Start"
      "s' = s\<lparr>index := 0, start := uv_hrtime env, dpc := production_loop cfg 0\<rparr>"
  | (Enqueue) ph i v where "dpc s = D_Enqueue ph i" "length (queue s) < capacity cfg"
      "v = (case ph of Production \<Rightarrow> uv_hrtime env | Shutdown \<Rightarrow> sentinel)"
      "s' = s\<lparr>queue := queue s @ [v], dpc := D_Send ph i, trace := trace s @ [Ev_Enqueue v]\<rparr>"
  | (Full) ph i v where "dpc s = D_Enqueue ph i" "\<not> length (queue s) < capacity cfg"
      "v = (case ph of Production \<Rightarrow> uv_hrtime env | Shutdown \<Rightarrow> sentinel)"
      "s' = s\<lparr>dpc := D_Abort ph i, trace := trace s @ [Ev_Full v]\<rparr>"
  | (Send_Busy) ph i t where "dpc s = D_Send ph i" "strategy cfg = Busy"
      "t = unat (index s) mod num_threads cfg" "t < length (workers s)"
      "s' = s\<lparr>index := index s + 1, trace := trace s @ [Ev_Send t], dpc := after_send cfg ph i\<rparr>"
  | (Send_Loop) ph i t where "dpc s = D_Send ph i" "strategy cfg = Loop"
      "t = unat (index s) mod num_threads cfg" "t < length (workers s)"
      "s' = s\<lparr>index := index s + 1, trace := trace s @ [Ev_Send t],
               workers := (workers s)[t := (workers s ! t)\<lparr>async_pending := True\<rparr>],
               dpc := after_send cfg ph i\<rparr>"
  | (Send_Sem) ph i t where "dpc s = D_Send ph i" "strategy cfg = Sem"
      "t = unat (index s) mod num_threads cfg" "t < length (workers s)"
      "s' = s\<lparr>index := index s + 1, trace := trace s @ [Ev_Send t],
               dpc := (if pending (workers s ! t) then after_send cfg ph i else D_Set ph i t)\<rparr>"
  | (Set_Lost) ph i t where "dpc s = D_Set ph i t" "t < length (workers s)"
      "pending (workers s ! t)"
      "s' = s\<lparr>dpc := after_send cfg ph i, trace := trace s @ [Ev_Set t False]\<rparr>"
  | (Set_Won) ph i t where "dpc s = D_Set ph i t" "t < length (workers s)"
      "\<not> pending (workers s ! t)"
      "s' = s\<lparr>workers := (workers s)[t := (workers s ! t)\<lparr>pending := True\<rparr>],
               dpc := D_Post ph i t, trace := trace s @ [Ev_Set t True]\<rparr>"
  | (Post) ph i t where "dpc s = D_Post ph i t" "t < length (workers s)"
      "s' = s\<lparr>workers := (workers s)[t := (workers s ! t)\<lparr>sem := Suc (sem (workers s ! t))\<rparr>],
               dpc := after_send cfg ph i, trace := trace s @ [Ev_Post t]\<rparr>"
  | (Report) "dpc s = D_Report"
      "s' = s\<lparr>elapsed := uv_hrtime env - start s,
               stdout := stdout s @ [throughput_line (name cfg) (uv_hrtime env - start s)
                                       (num_iterations cfg)],
               dpc := shutdown_loop cfg 0\<rparr>"
  | (Join) i where "dpc s = D_Join i" "i < length (workers s)"
      "pc (workers s ! i) = Terminated"
      "s' = s\<lparr>dpc := join_loop cfg (Suc i), trace := trace s @ [Ev_Join i]\<rparr>"
proof (cases "dpc s")
  case (D_Init i)
  then show ?thesis using assms Init [of i]
    by (simp add: driver_step_def Let_def split: if_splits)
next
  case D_Start
  then show ?thesis using assms Start
    by (simp add: driver_step_def)
next
  case (D_Enqueue ph i)
  then show ?thesis using assms Enqueue [of ph i] Full [of ph i]
    by (simp add: driver_step_def Let_def enqueue_def split: if_splits)
next
  case (D_Send ph i)
  then show ?thesis using assms Send_Busy [of ph i] Send_Loop [of ph i] Send_Sem [of ph i]
    by (cases "strategy cfg") (simp_all add: driver_step_def Let_def split: if_splits)
next
  case (D_Set ph i t)
  then show ?thesis using assms Set_Lost [of ph i t] Set_Won [of ph i t]
    by (simp add: driver_step_def Let_def split: if_splits)
next
  case (D_Post ph i t)
  then show ?thesis using assms Post [of ph i t]
    by (simp add: driver_step_def Let_def split: if_splits)
next
  case D_Report
  then show ?thesis using assms Report
    by (simp add: driver_step_def Let_def)
next
  case (D_Join i)
  then show ?thesis using assms Join [of i]
    by (simp add: driver_step_def split: if_splits)
next
  case D_Done
  then show ?thesis using assms by (simp add: driver_step_def)
next
  case (D_Abort ph i)
  then show ?thesis using assms by (simp add: driver_step_def)
qed

lemma worker_stepE [consumes 1, case_names Wake Cleared Spurious Callback Empty Stop Record Dumped]:
  assumes "worker_step cfg k env s = Some s'"
  obtains
    (Wake) "pc (workers s ! k) = Sem_Wait" "0 < sem (workers s ! k)"
      "s' = s\<lparr>workers := (workers s)
                 [k := (workers s ! k)\<lparr>sem := sem (workers s ! k) - 1, pc := Sem_Clear\<rparr>],
               trace := trace s @ [Ev_Wake k]\<rparr>"
  | (Cleared) "pc (workers s ! k) = Sem_Clear" "pending (workers s ! k)"
      "s' = s\<lparr>workers := (workers s)[k := (workers s ! k)\<lparr>pending := False, pc := Drain\<rparr>],
               trace := trace s @ [Ev_Clear k True]\<rparr>"
  | (Spurious) "pc (workers s ! k) = Sem_Clear" "\<not> pending (workers s ! k)"
      "s' = s\<lparr>workers := (workers s)[k := (workers s ! k)\<lparr>pc := Sem_Wait\<rparr>],
               trace := trace s @ [Ev_Clear k False]\<rparr>"
  | (Callback) "pc (workers s ! k) = Loop_Wait" "async_pending (workers s ! k)"
      "s' = s\<lparr>workers := (workers s)
                 [k := (workers s ! k)\<lparr>async_pending := False, pc := Drain\<rparr>],
               trace := trace s @ [Ev_Wake k]\<rparr>"
  | (Empty) "pc (workers s ! k) = Drain" "queue s = []"
      "s' = s\<lparr>workers := (workers s)[k := (workers s ! k)\<lparr>pc := waiting (strategy cfg)\<rparr>]\<rparr>"
  | (Stop) q where "pc (workers s ! k) = Drain" "queue s = sentinel # q"
      "s' = s\<lparr>queue := q, workers := (workers s)[k := (workers s ! k)\<lparr>pc := Dump\<rparr>],
               trace := trace s @ [Ev_Dequeue k sentinel]\<rparr>"
  | (Record) v q where "pc (workers s ! k) = Drain" "queue s = v # q" "v \<noteq> sentinel"
      "s' = s\<lparr>queue := q,
               workers := (workers s)
                 [k := (workers s ! k)\<lparr>histogram :=
                    hdr_record_value (histogram (workers s ! k)) (latency (uv_hrtime env) v)\<rparr>],
               trace := trace s @ [Ev_Dequeue k v]\<rparr>"
  | (Dumped) "pc (workers s ! k) = Dump"
      "s' = s\<lparr>workers := (workers s)[k := (workers s ! k)\<lparr>pc := Terminated\<rparr>],
               stdout := stdout s @ [dump (histogram (workers s ! k))],
               trace := trace s @ [Ev_Dump k]\<rparr>"
proof (cases "pc (workers s ! k)")
  case Created
  then show ?thesis using assms by (simp add: worker_step_def Let_def)
next
  case Sem_Wait
  then show ?thesis using assms Wake
    by (simp add: worker_step_def Let_def split: if_splits)
next
  case Sem_Clear
  then show ?thesis using assms Cleared Spurious
    by (simp add: worker_step_def Let_def split: if_splits)
next
  case Loop_Wait
  then show ?thesis using assms Callback
    by (simp add: worker_step_def Let_def split: if_splits)
next
  case Drain
  show ?thesis
  proof (cases "queue s")
    case Nil
    with Drain show ?thesis using assms Empty
      by (simp add: worker_step_def Let_def dequeue_def)
  next
    case (Cons v q)
    with Drain show ?thesis using assms Stop [of q] Record [of v q]
      by (simp add: worker_step_def Let_def dequeue_def split: if_splits)
  qed
next
  case Dump
  then show ?thesis using assms Dumped
    by (simp add: worker_step_def Let_def)
next
  case Terminated
  then show ?thesis using assms by (simp add: worker_step_def Let_def)
qed

lemma stepE [consumes 1, case_names Driver Worker]:
  assumes "step cfg a s = Some s'"
  obtains
    (Driver) env where "a = (Driver, env)" "driver_step cfg env s = Some s'"
  | (Worker) k env where "a = (Worker k, env)" "\<not> aborted (dpc s)" "k < length (workers s)"
      "worker_step cfg k env s = Some s'"
proof (cases a)
  case (Pair th env)
  with assms show ?thesis
    by (cases th) (auto intro: Driver Worker split: if_splits)
qed

lemma run_invariant:
  assumes "run cfg sched s = Some s'" "P s"
    and "\<And>a s s'. a \<in> set sched \<Longrightarrow> P s \<Longrightarrow> step cfg a s = Some s' \<Longrightarrow> P s'"
  shows "P s'"
  using assms
proof (induction sched arbitrary: s)
  case Nil
  then show ?case by simp
next
  case (Cons a sched)
  from Cons.prems(1) obtain s1 where s1: "step cfg a s = Some s1" "run cfg sched s1 = Some s'"
    by (auto split: option.splits)
  have "P s1" using Cons.prems(2) s1(1) by (intro Cons.prems(3) [of a s s1]) auto
  with s1(2) show ?case by (rule Cons.IH) (use Cons.prems(3) in auto)
qed

lemma run_append:
  "run cfg (xs @ ys) s = (case run cfg xs s of None \<Rightarrow> None | Some s' \<Rightarrow> run cfg ys s')"
  by (induction xs arbitrary: s) (auto split: option.splits)

section \<open>Evaluating the example runs\<close>

lemmas model_defs = init_loop_def production_loop_def shutdown_loop_def join_loop_def
  driver_step_def worker_step_def enqueue_def dequeue_def at_time_def BaseWorker_def Let_def
  SemWorker_init_def ThreadWorker_init_def LoopWorker_init_def sentinel_def initial_def
  completed_def

lemmas build_defs = run_sem_test_def NUM_THREADS_def NUM_ITERATIONS_def queue_size_def

lemmas example_defs = tiny_def tiny_sem_schedule_def burst_def burst_prefix_def burst_sends_def
  wake_schedule_def spurious_state_def failing_env_def init_failure_schedule_def

lemma four_workers: "replicate 4 x = [x, x, x, x]"
  by (simp add: eval_nat_numeral)

lemma tiny_sem_run_end:
  "\<exists>s. run (tiny Sem) tiny_sem_schedule (initial (tiny Sem)) = Some s \<and> completed s \<and>
       pc (workers s ! 0) = Terminated"
  by (simp add: model_defs example_defs)

lemma tiny_busy_run_end:
  "\<exists>s. run (tiny Busy) tiny_busy_schedule (initial (tiny Busy)) = Some s \<and> completed s"
  by (simp add: model_defs example_defs tiny_busy_schedule_def)

lemma tiny_loop_run_end:
  "\<exists>s. run (tiny Loop) tiny_loop_schedule (initial (tiny Loop)) = Some s \<and> completed s"
  by (simp add: model_defs example_defs tiny_loop_schedule_def)

lemma burst_run:
  "\<exists>s s'. run burst burst_prefix (initial burst) = Some s \<and>
     run burst burst_sends s = Some s' \<and>
     clears 0 (trace s') = clears 0 (trace s) \<and>
     length (filter (\<lambda>e. e = Ev_Send 0) (trace s')) = 3 \<and>
     posts 0 (trace s) = 0 \<and> posts 0 (trace s') = 1"
  by (simp add: model_defs example_defs posts_def clears_def)

section \<open>No token is lost\<close>

subsection \<open>The driver stays in range\<close>

lemma in_range_loops [simp]:
  "in_range cfg (init_loop cfg i)"
  "in_range cfg (production_loop cfg i)"
  "in_range cfg (join_loop cfg i)"
  "in_range cfg (shutdown_loop cfg i)"
  by (simp_all add: init_loop_def production_loop_def join_loop_def shutdown_loop_def)

lemma in_range_after_send [simp]: "in_range cfg (after_send cfg ph i)"
  by (cases ph) simp_all

lemma shape_initial: "shape cfg (initial cfg)"
  by (simp add: shape_def initial_def)

lemma shape_driver:
  assumes "driver_step cfg env s = Some s'" "shape cfg s"
  shows "shape cfg s'"
  using assms by (cases rule: driver_stepE) (auto simp: shape_def)

lemma shape_worker:
  assumes "worker_step cfg k env s = Some s'" "shape cfg s"
  shows "shape cfg s'"
  using assms by (cases rule: worker_stepE) (auto simp: shape_def)

lemma shape_step:
  assumes "step cfg a s = Some s'" "shape cfg s"
  shows "shape cfg s'"
  using assms by (cases rule: stepE) (auto intro: shape_driver shape_worker)

subsection \<open>Samples and tokens\<close>

lemma sum_list_update_nat:
  "k < length ws \<Longrightarrow>
   sum_list (map f (ws[k := w])) + f (ws ! k) = sum_list (map f ws) + (f w :: nat)"
proof (induction ws arbitrary: k)
  case Nil
  then show ?case by simp
next
  case (Cons a ws)
  then show ?case by (cases k) auto
qed

lemma recorded_same [simp]:
  "k < length ws \<Longrightarrow> recorded w = recorded (ws ! k) \<Longrightarrow>
   sum_list (map recorded (ws[k := w])) = sum_list (map recorded ws)"
  using sum_list_update_nat [of k ws recorded w] by simp

lemma recorded_more [simp]:
  "k < length ws \<Longrightarrow> recorded w = Suc (recorded (ws ! k)) \<Longrightarrow>
   sum_list (map recorded (ws[k := w])) = Suc (sum_list (map recorded ws))"
  using sum_list_update_nat [of k ws recorded w] by simp

lemma recorded_simps [simp]:
  "recorded (w\<lparr>pc := p\<rparr>) = recorded w"
  "recorded (w\<lparr>pending := b\<rparr>) = recorded w"
  "recorded (w\<lparr>sem := n\<rparr>) = recorded w"
  "recorded (w\<lparr>async_pending := b\<rparr>) = recorded w"
  "recorded (w\<lparr>histogram := hdr_record_value (histogram w) v\<rparr>) = Suc (recorded w)"
  by (simp_all add: recorded_def hdr_record_value_def)

lemma produced_production_loop:
  "i \<le> num_iterations cfg \<Longrightarrow> produced cfg (production_loop cfg i) = i"
  by (simp add: production_loop_def)

lemma produced_shutdown_loop [simp]:
  "produced cfg (shutdown_loop cfg i) = num_iterations cfg"
  "produced cfg (join_loop cfg i) = num_iterations cfg"
  by (simp_all add: shutdown_loop_def join_loop_def)

lemma produced_init_loop [simp]: "produced cfg (init_loop cfg i) = 0"
  by (simp add: init_loop_def)

lemma produced_after_send:
  "in_range cfg (D_Send ph i) \<Longrightarrow> produced cfg (after_send cfg ph i) = produced cfg (D_Send ph i)"
  by (cases ph) (simp_all add: produced_production_loop)

lemma produced_pcs [simp]:
  "produced cfg (D_Set ph i t) = produced cfg (D_Send ph i)"
  "produced cfg (D_Post ph i t) = produced cfg (D_Send ph i)"
  "produced cfg (D_Abort ph i) = produced cfg (D_Enqueue ph i)"
  by (cases ph; simp)+

lemma accounted_driver:
  assumes "driver_step cfg env s = Some s'" "shape cfg s" "accounted cfg s"
    "uv_hrtime env \<noteq> sentinel"
  shows "accounted cfg s'"
  using assms
proof (cases rule: driver_stepE)
  case (Enqueue ph i v)
  with assms show ?thesis
    by (cases ph) (auto simp: accounted_def total_samples_def tokens_in_def)
qed (auto simp: accounted_def total_samples_def shape_def produced_after_send produced_production_loop)

lemma accounted_worker:
  assumes "worker_step cfg k env s = Some s'" "k < length (workers s)" "accounted cfg s"
  shows "accounted cfg s'"
  using assms
  by (cases rule: worker_stepE) (auto simp: accounted_def total_samples_def tokens_in_def)

subsection \<open>Before the first sentinel\<close>

lemma waiting_not_stopped [simp]:
  "waiting st \<noteq> Dump" "waiting st \<noteq> Terminated" "waiting st \<noteq> Created"
  "waiting st \<noteq> Sem_Clear"
  by (cases st; simp)+

lemma stopped_simps [simp]:
  "stopped (w\<lparr>pc := p\<rparr>) = (p = Dump \<or> p = Terminated)"
  "stopped (w\<lparr>pending := b\<rparr>) = stopped w"
  "stopped (w\<lparr>sem := n\<rparr>) = stopped w"
  "stopped (w\<lparr>async_pending := b\<rparr>) = stopped w"
  "stopped (w\<lparr>histogram := h\<rparr>) = stopped w"
  by (simp_all add: stopped_def)

lemma shutting_loops [simp]:
  "\<not> shutting (init_loop cfg i)"
  "\<not> shutting (production_loop cfg i)"
  "shutting (join_loop cfg i)"
  "shutting (shutdown_loop cfg i) = (0 < i \<or> num_threads cfg = 0)"
  by (auto simp: init_loop_def production_loop_def join_loop_def shutdown_loop_def)

lemma shutting_pcs [simp]:
  "shutting (D_Abort ph i) = shutting (D_Enqueue ph i)"
  "shutting (D_Set ph i t) = shutting (D_Send ph i)"
  "shutting (D_Post ph i t) = shutting (D_Send ph i)"
  "shutting (after_send cfg ph i) = shutting (D_Send ph i)"
  by (cases ph; simp)+

lemma quiet_initial: "quiet (initial cfg)"
  by (simp add: quiet_def initial_def BaseWorker_def stopped_def)

lemma quiet_driver:
  assumes "driver_step cfg env s = Some s'" "quiet s" "uv_hrtime env \<noteq> sentinel"
  shows "quiet s'"
  using assms
proof (cases rule: driver_stepE)
  case (Enqueue ph i v)
  with assms show ?thesis by (cases ph) (auto simp: quiet_def)
qed (auto simp: quiet_def nth_list_update)

lemma quiet_worker:
  assumes "worker_step cfg k env s = Some s'" "k < length (workers s)" "quiet s"
  shows "quiet s'"
  using assms
  by (cases rule: worker_stepE) (auto simp: quiet_def nth_list_update stopped_def)

subsection \<open>Sentinels come last\<close>

lemma tokens_in_simps [simp]:
  "tokens_in [] = 0"
  "tokens_in (q @ [v]) = (if v = sentinel then tokens_in q else Suc (tokens_in q))"
  "tokens_in (v # q) = (if v = sentinel then tokens_in q else Suc (tokens_in q))"
  by (simp_all add: tokens_in_def)

lemma sentinel_tail_sentinel: "sentinel_tail q \<Longrightarrow> sentinel_tail (q @ [sentinel])"
  by (induction q) auto

lemma sentinel_tail_token: "sentinel \<notin> set q \<Longrightarrow> sentinel_tail (q @ [v])"
  by (induction q) auto

lemma tail_driver:
  assumes "driver_step cfg env s = Some s'" "quiet s" "sentinel_tail (queue s)"
  shows "sentinel_tail (queue s')"
  using assms
proof (cases rule: driver_stepE)
  case (Enqueue ph i v)
  with assms show ?thesis
    by (cases ph) (auto simp: quiet_def intro: sentinel_tail_sentinel sentinel_tail_token)
qed auto

lemma tail_worker:
  assumes "worker_step cfg k env s = Some s'" "sentinel_tail (queue s)"
  shows "sentinel_tail (queue s')"
  using assms by (cases rule: worker_stepE) auto

lemma drained_driver:
  assumes "driver_step cfg env s = Some s'" "quiet s" "drained s"
  shows "drained s'"
  using assms
proof (cases rule: driver_stepE)
  case (Enqueue ph i v)
  with assms show ?thesis by (cases ph) (auto simp: quiet_def drained_def)
qed (auto simp: drained_def nth_list_update split: if_splits)

lemma drained_worker:
  assumes "worker_step cfg k env s = Some s'" "k < length (workers s)"
    "sentinel_tail (queue s)" "drained s"
  shows "drained s'"
  using assms
  by (cases rule: worker_stepE) (auto simp: drained_def nth_list_update stopped_def split: if_splits)

subsection \<open>Joined workers have terminated\<close>

lemma joined_loops [simp]:
  "joined cfg (init_loop cfg i) = 0"
  "joined cfg (production_loop cfg i) = 0"
  "joined cfg (shutdown_loop cfg i) = 0"
  "joined cfg (join_loop cfg 0) = 0"
  "joined cfg (after_send cfg ph i) = 0"
  by (cases ph; auto simp: init_loop_def production_loop_def join_loop_def shutdown_loop_def)+

lemma joined_join_loop: "joined cfg (join_loop cfg i) \<le> i"
  by (simp add: join_loop_def)

lemma joined_up_driver:
  assumes "driver_step cfg env s = Some s'" "joined_up cfg s"
  shows "joined_up cfg s'"
  using assms
proof (cases rule: driver_stepE)
  case (Join i)
  have "\<And>j. j < joined cfg (join_loop cfg (Suc i)) \<Longrightarrow> j < i \<or> j = i"
    using joined_join_loop [of cfg "Suc i"] by arith
  with Join assms show ?thesis by (auto simp: joined_up_def)
qed (auto simp: joined_up_def)

lemma joined_up_worker:
  assumes "worker_step cfg k env s = Some s'" "k < length (workers s)" "joined_up cfg s"
  shows "joined_up cfg s'"
  using assms
  by (cases rule: worker_stepE) (auto simp: joined_up_def nth_list_update)

subsection \<open>Each sentinel stops one worker\<close>

lemma sentinels_in_simps [simp]:
  "sentinels_in [] = 0"
  "sentinels_in (q @ [v]) = (if v = sentinel then Suc (sentinels_in q) else sentinels_in q)"
  "sentinels_in (v # q) = (if v = sentinel then Suc (sentinels_in q) else sentinels_in q)"
  by (simp_all add: sentinels_in_def)

lemma length_tokens_sentinels: "length q = tokens_in q + sentinels_in q"
  by (induction q) auto

lemma halted_same [simp]:
  "k < length ws \<Longrightarrow> halted w = halted (ws ! k) \<Longrightarrow>
   sum_list (map halted (ws[k := w])) = sum_list (map halted ws)"
  using sum_list_update_nat [of k ws halted w] by simp

lemma halted_more [simp]:
  "k < length ws \<Longrightarrow> halted w = Suc (halted (ws ! k)) \<Longrightarrow>
   sum_list (map halted (ws[k := w])) = Suc (sum_list (map halted ws))"
  using sum_list_update_nat [of k ws halted w] by simp

lemma halted_simps [simp]:
  "halted (w\<lparr>pc := p\<rparr>) = (if p = Dump \<or> p = Terminated then 1 else 0)"
  "halted (w\<lparr>pending := b\<rparr>) = halted w"
  "halted (w\<lparr>sem := n\<rparr>) = halted w"
  "halted (w\<lparr>async_pending := b\<rparr>) = halted w"
  "halted (w\<lparr>histogram := h\<rparr>) = halted w"
  by (simp_all add: halted_def)

lemma halted_pc:
  "pc w = Created \<Longrightarrow> halted w = 0"
  "pc w = Sem_Wait \<Longrightarrow> halted w = 0"
  "pc w = Sem_Clear \<Longrightarrow> halted w = 0"
  "pc w = Loop_Wait \<Longrightarrow> halted w = 0"
  "pc w = Drain \<Longrightarrow> halted w = 0"
  "pc w = Dump \<Longrightarrow> halted w = 1"
  "pc w = Terminated \<Longrightarrow> halted w = 1"
  by (simp_all add: halted_def stopped_def)

lemma halted_all:
  "(\<forall>j<length ws. pc (ws ! j) = Terminated) \<Longrightarrow> sum_list (map halted ws) = length ws"
proof (induction ws)
  case Nil
  then show ?case by simp
next
  case (Cons w ws)
  from Cons.prems have "pc w = Terminated" by (auto dest: spec [of _ 0])
  moreover from Cons.prems have "\<forall>j<length ws. pc (ws ! j) = Terminated" by auto
  ultimately show ?case using Cons.IH by (simp add: halted_pc)
qed

lemma halted_none:
  "(\<forall>j<length ws. \<not> stopped (ws ! j)) \<Longrightarrow> sum_list (map halted ws) = 0"
proof (induction ws)
  case Nil
  then show ?case by simp
next
  case (Cons w ws)
  from Cons.prems have "\<not> stopped w" by (auto dest: spec [of _ 0])
  moreover from Cons.prems have "\<forall>j<length ws. \<not> stopped (ws ! j)" by auto
  ultimately show ?case using Cons.IH by (simp add: halted_def)
qed

lemma sentinels_sent_loops [simp]:
  "sentinels_sent cfg (init_loop cfg i) = 0"
  "sentinels_sent cfg (production_loop cfg i) = 0"
  "sentinels_sent cfg (join_loop cfg i) = num_threads cfg"
  by (auto simp: init_loop_def production_loop_def join_loop_def)

lemma sentinels_sent_shutdown_loop:
  "i \<le> num_threads cfg \<Longrightarrow> sentinels_sent cfg (shutdown_loop cfg i) = i"
  by (auto simp: shutdown_loop_def)

lemma sentinels_sent_pcs [simp]:
  "sentinels_sent cfg (D_Abort ph i) = sentinels_sent cfg (D_Enqueue ph i)"
  "sentinels_sent cfg (D_Set ph i t) = sentinels_sent cfg (D_Send ph i)"
  "sentinels_sent cfg (D_Post ph i t) = sentinels_sent cfg (D_Send ph i)"
  by (cases ph; simp)+

lemma sentinels_sent_after_send:
  "in_range cfg (D_Send ph i) \<Longrightarrow>
   sentinels_sent cfg (after_send cfg ph i) = sentinels_sent cfg (D_Send ph i)"
  by (cases ph) (simp_all add: sentinels_sent_shutdown_loop)

lemma handed_out_initial: "handed_out cfg (initial cfg)"
proof -
  have "sum_list (map halted (replicate n BaseWorker)) = 0" for n
    by (induction n) (simp_all add: halted_def stopped_def BaseWorker_def)
  then show ?thesis by (simp add: handed_out_def initial_def)
qed

lemma handed_out_driver:
  assumes "driver_step cfg env s = Some s'" "shape cfg s" "quiet s" "handed_out cfg s"
    "uv_hrtime env \<noteq> sentinel"
  shows "handed_out cfg s'"
  using assms(1)
proof (cases rule: driver_stepE)
  case (Enqueue ph i v)
  with assms show ?thesis by (cases ph) (auto simp: handed_out_def)
next
  case (Init i)
  with assms(3) have "halted (workers s ! i) = 0" by (simp add: quiet_def halted_def)
  with Init assms show ?thesis by (auto simp: handed_out_def)
qed (use assms in \<open>auto simp: handed_out_def shape_def sentinels_sent_after_send
      sentinels_sent_shutdown_loop\<close>)

lemma handed_out_worker:
  assumes "worker_step cfg k env s = Some s'" "k < length (workers s)" "handed_out cfg s"
  shows "handed_out cfg s'"
  using assms
  by (cases rule: worker_stepE) (auto simp: handed_out_def halted_pc)

lemma logged_driver:
  assumes "driver_step cfg env s = Some s'" "shape cfg s" "logged cfg s"
    "uv_hrtime env \<noteq> sentinel"
  shows "logged cfg s'"
  using assms
proof (cases rule: driver_stepE)
  case (Enqueue ph i v)
  with assms show ?thesis by (cases ph) (auto simp: logged_def)
qed (auto simp: logged_def shape_def produced_after_send produced_production_loop)

lemma logged_worker:
  assumes "worker_step cfg k env s = Some s'" "logged cfg s"
  shows "logged cfg s'"
  using assms
  by (cases rule: worker_stepE) (auto simp: logged_def)

subsection \<open>The invariant and the claim\<close>

lemma accounted_initial: "accounted cfg (initial cfg)"
proof -
  have "sum_list (map recorded (replicate n BaseWorker)) = 0" for n
    by (induction n) (simp_all add: recorded_def BaseWorker_def hdr_init_def)
  then show ?thesis by (simp add: accounted_def initial_def total_samples_def)
qed

lemma invariant_initial: "invariant cfg (initial cfg)"
  unfolding invariant_def
  using shape_initial accounted_initial quiet_initial handed_out_initial
  by (simp add: logged_def drained_def joined_up_def) (simp add: initial_def BaseWorker_def stopped_def init_loop_def)

lemma invariant_step:
  assumes "step cfg a s = Some s'" "invariant cfg s" "uv_hrtime (snd a) \<noteq> sentinel"
  shows "invariant cfg s'"
  using assms(1)
proof (cases rule: stepE)
  case (Driver env)
  with assms show ?thesis
    unfolding invariant_def
    by (auto intro: shape_driver accounted_driver logged_driver quiet_driver tail_driver
        drained_driver joined_up_driver handed_out_driver)
next
  case (Worker k env)
  with assms show ?thesis
    unfolding invariant_def
    by (auto intro: shape_worker accounted_worker logged_worker quiet_worker tail_worker
        drained_worker joined_up_worker handed_out_worker)
qed

lemma invariant_run:
  assumes "run cfg sched (initial cfg) = Some s"
    "\<forall>a\<in>set sched. uv_hrtime (snd a) \<noteq> sentinel"
  shows "invariant cfg s"
  using assms(1) invariant_initial
  by (rule run_invariant) (use assms(2) in \<open>auto intro: invariant_step\<close>)

text \<open>
  C1. In every completed run with at least one worker in which the clock never reads
  \<open>2 ^ 64 - 1\<close>, the recorders of the workers hold together exactly \<^verbatim>\<open>NUM_ITERATIONS\<close>
  samples; this is also the number of tokens other than the sentinel that the driver
  enqueued, and the queue is empty at the end.
\<close>

theorem no_sample_lost:
  assumes "0 < num_threads cfg"
    and "run cfg sched (initial cfg) = Some s"
    and "completed s"
    and "\<forall>a\<in>set sched. uv_hrtime (snd a) \<noteq> sentinel"
  shows "total_samples s = num_iterations cfg \<and>
         length (filter is_token_enqueue (trace s)) = num_iterations cfg \<and>
         queue s = []"
proof -
  from assms(2,4) have inv: "invariant cfg s" by (rule invariant_run)
  from assms(3) have fin: "dpc s = D_Done" by (simp add: completed_def)
  from inv have len: "length (workers s) = num_threads cfg" by (simp add: invariant_def shape_def)
  from inv fin have ended: "\<forall>j<length (workers s). pc (workers s ! j) = Terminated"
    by (simp add: invariant_def joined_up_def len)
  with assms(1) len have "stopped (workers s ! 0)" by (simp add: stopped_def)
  with inv assms(1) len have tok: "tokens_in (queue s) = 0"
    by (auto simp: invariant_def drained_def)
  from ended have "sum_list (map halted (workers s)) = num_threads cfg"
    using halted_all [of "workers s"] len by simp
  with inv fin have sen: "sentinels_in (queue s) = 0"
    by (simp add: invariant_def handed_out_def)
  from tok sen have "queue s = []" using length_tokens_sentinels [of "queue s"] by simp
  moreover from inv fin tok have "total_samples s = num_iterations cfg"
    by (simp add: invariant_def accounted_def)
  moreover from inv fin have "length (filter is_token_enqueue (trace s)) = num_iterations cfg"
    by (simp add: invariant_def logged_def)
  ultimately show ?thesis by simp
qed

theorem no_sample_lost_witness:
  "0 < num_threads (tiny Sem) \<and>
   list_all (\<lambda>a. uv_hrtime (snd a) \<noteq> sentinel) tiny_sem_schedule \<and>
   (\<exists>s. run (tiny Sem) tiny_sem_schedule (initial (tiny Sem)) = Some s \<and> completed s \<and>
        total_samples s = 1 \<and> queue s = []) \<and>
   list_all (\<lambda>a. uv_hrtime (snd a) \<noteq> sentinel) tiny_busy_schedule \<and>
   (\<exists>s. run (tiny Busy) tiny_busy_schedule (initial (tiny Busy)) = Some s \<and> completed s \<and>
        total_samples s = 1 \<and> queue s = []) \<and>
   list_all (\<lambda>a. uv_hrtime (snd a) \<noteq> sentinel) tiny_loop_schedule \<and>
   (\<exists>s. run (tiny Loop) tiny_loop_schedule (initial (tiny Loop)) = Some s \<and> completed s \<and>
        total_samples s = 1 \<and> queue s = [])"
proof -
  have n: "0 < num_threads (tiny st)" for st by (simp add: tiny_def)
  have t: "\<forall>a\<in>set tiny_sem_schedule. uv_hrtime (snd a) \<noteq> sentinel"
    "\<forall>a\<in>set tiny_busy_schedule. uv_hrtime (snd a) \<noteq> sentinel"
    "\<forall>a\<in>set tiny_loop_schedule. uv_hrtime (snd a) \<noteq> sentinel"
    by (simp_all add: tiny_sem_schedule_def tiny_busy_schedule_def tiny_loop_schedule_def
          at_time_def sentinel_def)
  from tiny_sem_run_end obtain s1 where
    s1: "run (tiny Sem) tiny_sem_schedule (initial (tiny Sem)) = Some s1" "completed s1"
    by blast
  from tiny_busy_run_end obtain s2 where
    s2: "run (tiny Busy) tiny_busy_schedule (initial (tiny Busy)) = Some s2" "completed s2"
    by blast
  from tiny_loop_run_end obtain s3 where
    s3: "run (tiny Loop) tiny_loop_schedule (initial (tiny Loop)) = Some s3" "completed s3"
    by blast
  from no_sample_lost [OF n s1 t(1)] have r1: "total_samples s1 = 1 \<and> queue s1 = []"
    by (simp add: tiny_def)
  from no_sample_lost [OF n s2 t(2)] have r2: "total_samples s2 = 1 \<and> queue s2 = []"
    by (simp add: tiny_def)
  from no_sample_lost [OF n s3 t(3)] have r3: "total_samples s3 = 1 \<and> queue s3 = []"
    by (simp add: tiny_def)
  from n [of Sem] t s1 s2 s3 r1 r2 r3 show ?thesis by (auto simp: list_all_iff)
qed
section \<open>What each worker did\<close>

subsection \<open>Workers without a thread\<close>

lemma init_pcs [simp]:
  "production_loop cfg i \<noteq> D_Init j"
  "shutdown_loop cfg i \<noteq> D_Init j"
  "join_loop cfg i \<noteq> D_Init j"
  "after_send cfg ph i \<noteq> D_Init j"
  by (cases ph; auto simp: production_loop_def shutdown_loop_def join_loop_def)+

lemma init_loop_eq [simp]: "(init_loop cfg i = D_Init j) = (i = j \<and> i < num_threads cfg)"
  by (auto simp: init_loop_def)

lemma unstarted_initial: "unstarted (initial cfg)"
  by (simp add: unstarted_def initial_def BaseWorker_def)

lemma unstarted_driver:
  assumes "driver_step cfg env s = Some s'" "unstarted s"
  shows "unstarted s'"
  using assms by (cases rule: driver_stepE) (auto simp: unstarted_def)

lemma unstarted_worker:
  assumes "worker_step cfg k env s = Some s'" "k < length (workers s)" "unstarted s"
  shows "unstarted s'"
  using assms by (cases rule: worker_stepE) (auto simp: unstarted_def nth_list_update)

subsection \<open>One sentinel, one report\<close>

lemma trace_counts [simp]:
  "sentinel_dequeues k [] = 0"
  "sentinel_dequeues k (tr @ [e]) =
     (if e = Ev_Dequeue k sentinel then Suc (sentinel_dequeues k tr) else sentinel_dequeues k tr)"
  "dumps k [] = 0"
  "dumps k (tr @ [e]) = (if e = Ev_Dump k then Suc (dumps k tr) else dumps k tr)"
  by (simp_all add: sentinel_dequeues_def dumps_def)

lemma last_dequeue_simps [simp]:
  "last_dequeue k [] = None"
  "last_dequeue k (tr @ [e]) = (if dequeued_by k e then Some e else last_dequeue k tr)"
  by (simp_all add: last_dequeue_def)

lemma one_sentinel_initial: "k < num_threads cfg \<Longrightarrow> one_sentinel k (initial cfg)"
  by (simp add: one_sentinel_def initial_def BaseWorker_def stopped_def)

lemma one_sentinel_driver:
  assumes "driver_step cfg env s = Some s'" "k < length (workers s)" "unstarted s"
    "one_sentinel k s"
  shows "one_sentinel k s'"
  using assms
  by (cases rule: driver_stepE) (auto simp: one_sentinel_def unstarted_def nth_list_update stopped_def)

lemma one_sentinel_worker:
  assumes "worker_step cfg j env s = Some s'" "j < length (workers s)" "k < length (workers s)"
    "one_sentinel k s"
  shows "one_sentinel k s'"
  using assms
  by (cases rule: worker_stepE) (auto simp: one_sentinel_def nth_list_update stopped_def)

subsection \<open>One wake at a time\<close>

lemma sem_counts [simp]:
  "posts k [] = 0"
  "posts k (tr @ [e]) = (if e = Ev_Post k then Suc (posts k tr) else posts k tr)"
  "clears k [] = 0"
  "clears k (tr @ [e]) = (if e = Ev_Clear k True then Suc (clears k tr) else clears k tr)"
  "sets_won k [] = 0"
  "sets_won k (tr @ [e]) = (if e = Ev_Set k True then Suc (sets_won k tr) else sets_won k tr)"
  by (simp_all add: posts_def clears_def sets_won_def)

lemma posting_loops [simp]:
  "posting k (init_loop cfg i) = 0"
  "posting k (production_loop cfg i) = 0"
  "posting k (shutdown_loop cfg i) = 0"
  "posting k (join_loop cfg i) = 0"
  "posting k (after_send cfg ph i) = 0"
  by (cases ph; simp add: init_loop_def production_loop_def shutdown_loop_def join_loop_def)+

lemma woken_simps [simp]:
  "woken (w\<lparr>pc := p\<rparr>) = (if p = Sem_Clear then 1 else 0)"
  "woken (w\<lparr>pending := b\<rparr>) = woken w"
  "woken (w\<lparr>sem := n\<rparr>) = woken w"
  "woken (w\<lparr>async_pending := b\<rparr>) = woken w"
  "woken (w\<lparr>histogram := h\<rparr>) = woken w"
  "flagged (w\<lparr>pc := p\<rparr>) = flagged w"
  "flagged (w\<lparr>pending := b\<rparr>) = (if b then 1 else 0)"
  "flagged (w\<lparr>sem := n\<rparr>) = flagged w"
  "flagged (w\<lparr>async_pending := b\<rparr>) = flagged w"
  "flagged (w\<lparr>histogram := h\<rparr>) = flagged w"
  by (simp_all add: woken_def flagged_def)

lemma coalesced_initial: "k < num_threads cfg \<Longrightarrow> coalesced k (initial cfg)"
  by (simp add: coalesced_def initial_def BaseWorker_def woken_def flagged_def)

lemma flagged_known:
  "pending w \<Longrightarrow> flagged w = 1"
  "\<not> pending w \<Longrightarrow> flagged w = 0"
  by (simp_all add: flagged_def)

lemma woken_known:
  "pc w = Sem_Clear \<Longrightarrow> woken w = 1"
  "pc w \<noteq> Sem_Clear \<Longrightarrow> woken w = 0"
  by (simp_all add: woken_def)

lemma coalesced_driver:
  assumes "driver_step cfg env s = Some s'" "k < length (workers s)" "unstarted s"
    "coalesced k s"
  shows "coalesced k s'"
  using assms(1)
proof (cases rule: driver_stepE)
  case (Init i)
  with assms show ?thesis
    by (cases "i = k") (auto simp: coalesced_def Let_def unstarted_def woken_known)
next
  case (Send_Loop ph i t)
  with assms show ?thesis
    by (cases "t = k") (auto simp: coalesced_def Let_def)
next
  case (Set_Won ph i t)
  with assms show ?thesis
    by (cases "t = k") (auto simp: coalesced_def Let_def flagged_known)
next
  case (Post ph i t)
  with assms show ?thesis
    by (cases "t = k") (auto simp: coalesced_def Let_def)
qed (use assms in \<open>auto simp: coalesced_def Let_def\<close>)

lemma coalesced_worker:
  assumes "worker_step cfg j env s = Some s'" "j < length (workers s)" "k < length (workers s)"
    "coalesced k s"
  shows "coalesced k s'"
proof (cases "j = k")
  case False
  with assms show ?thesis
    by (cases rule: worker_stepE) (auto simp: coalesced_def Let_def)
next
  case True
  with assms show ?thesis
    by (cases rule: worker_stepE)
       (auto simp: coalesced_def Let_def flagged_known woken_known)
qed

subsection \<open>Posts and exchanges of the flag\<close>

lemma history_initial: "history cfg (initial cfg)"
  using unstarted_initial [of cfg]
  by (auto simp: history_def one_sentinel_initial coalesced_initial) (simp add: initial_def)

lemma history_step:
  assumes "step cfg a s = Some s'" "history cfg s"
  shows "history cfg s'"
  using assms(1)
proof (cases rule: stepE)
  case (Driver env)
  from Driver(2) assms(2) have "shape cfg s' \<or> length (workers s') = length (workers s)"
    by (cases rule: driver_stepE) auto
  with Driver assms(2) show ?thesis
    unfolding history_def
    by (auto intro: unstarted_driver one_sentinel_driver coalesced_driver simp: shape_def)
next
  case (Worker k env)
  from Worker(4) have "length (workers s') = length (workers s)"
    by (cases rule: worker_stepE) auto
  with Worker assms(2) show ?thesis
    unfolding history_def
    by (auto intro: unstarted_worker one_sentinel_worker coalesced_worker)
qed

lemma history_run:
  assumes "run cfg sched s = Some s'" "history cfg s"
  shows "history cfg s'"
  using assms by (rule run_invariant) (auto intro: history_step)

text \<open>
  C3. Take any two points of a run between which worker \<open>k\<close> did not clear its pending
  flag. However many calls of \<open>send\<close> were made in between, \<^verbatim>\<open>uv_sem_post\<close> was called on
  the semaphore of \<open>k\<close> at most once. Every post belongs to an exchange of the flag from
  false to true that succeeded, at most one such exchange is still without its post, and
  the semaphore never holds more than 1.
\<close>

theorem sem_post_coalesced:
  assumes "run cfg sched (initial cfg) = Some s" and "run cfg sched' s = Some s'"
    and "k < num_threads cfg"
    and "clears k (trace s') = clears k (trace s)"
  shows "posts k (trace s') \<le> Suc (posts k (trace s)) \<and>
         posts k (trace s') \<le> sets_won k (trace s') \<and>
         sets_won k (trace s') \<le> Suc (posts k (trace s')) \<and>
         sem (workers s' ! k) \<le> 1"
proof -
  from assms(1) history_initial have h: "history cfg s" by (rule history_run)
  with assms(2) have h': "history cfg s'" by (rule history_run)
  from h assms(3) have c: "coalesced k s" by (simp add: history_def)
  from h' assms(3) have c': "coalesced k s'" by (simp add: history_def)
  have f: "flagged w \<le> 1" for w by (simp add: flagged_def)
  have p: "posting k d \<le> 1" for d by (cases d) auto
  from c have "clears k (trace s) \<le> posts k (trace s)" by (simp add: coalesced_def Let_def)
  moreover from c' f [of "workers s' ! k"]
  have "posts k (trace s') \<le> Suc (clears k (trace s'))" "sem (workers s' ! k) \<le> 1"
    by (auto simp: coalesced_def Let_def)
  moreover from c' p [of "dpc s'"]
  have "posts k (trace s') \<le> sets_won k (trace s')"
    "sets_won k (trace s') \<le> Suc (posts k (trace s'))"
    by (auto simp: coalesced_def Let_def)
  ultimately show ?thesis using assms(4) by simp
qed

theorem sem_post_coalesced_witness:
  "0 < num_threads burst \<and>
   (\<exists>s s'. run burst burst_prefix (initial burst) = Some s \<and>
      run burst burst_sends s = Some s' \<and>
      clears 0 (trace s') = clears 0 (trace s) \<and>
      length (filter (\<lambda>e. e = Ev_Send 0) (trace s')) = 3 \<and>
      posts 0 (trace s') = 1 \<and>
      posts 0 (trace s') \<le> Suc (posts 0 (trace s)) \<and>
      sem (workers s' ! 0) \<le> 1)"
proof -
  from burst_run obtain s s' where
    r: "run burst burst_prefix (initial burst) = Some s" "run burst burst_sends s = Some s'"
       "clears 0 (trace s') = clears 0 (trace s)"
       "length (filter (\<lambda>e. e = Ev_Send 0) (trace s')) = 3" "posts 0 (trace s') = 1"
    by blast
  have n: "0 < num_threads burst" by (simp add: burst_def)
  from sem_post_coalesced [OF r(1,2) n r(3)] r n show ?thesis by blast
qed

section \<open>The output of a run\<close>

subsection \<open>The throughput line first\<close>

lemma reported_loops [simp]:
  "\<not> reported (init_loop cfg i)"
  "\<not> reported (production_loop cfg i)"
  "reported (shutdown_loop cfg i)"
  "reported (join_loop cfg i)"
  by (simp_all add: init_loop_def production_loop_def shutdown_loop_def join_loop_def)

lemma reported_pcs [simp]:
  "reported (D_Abort ph i) = reported (D_Enqueue ph i)"
  "reported (D_Send ph i) = reported (D_Enqueue ph i)"
  "reported (D_Set ph i t) = reported (D_Enqueue ph i)"
  "reported (D_Post ph i t) = reported (D_Enqueue ph i)"
  "reported (after_send cfg ph i) = reported (D_Enqueue ph i)"
  by (cases ph; simp)+

lemma printed_initial: "printed cfg (initial cfg)"
  by (simp add: printed_def header_def reports_def initial_def BaseWorker_def)

text \<open>
  A step that prints nothing, keeps the header, and changes at most one worker without
  finishing it or touching the recorder of a finished one.
\<close>

lemma printed_same:
  assumes "printed cfg s" "stdout s' = stdout s" "header cfg s' = header cfg s"
    "length (workers s') = length (workers s)"
    "\<And>j. j < length (workers s) \<Longrightarrow>
       (pc (workers s' ! j) = Terminated) = (pc (workers s ! j) = Terminated)"
    "\<And>j. j < length (workers s) \<Longrightarrow> pc (workers s ! j) = Terminated \<Longrightarrow>
       histogram (workers s' ! j) = histogram (workers s ! j)"
  shows "printed cfg s'"
proof -
  from assms(1) obtain p where
    p: "distinct p" "set p = {k. k < length (workers s) \<and> pc (workers s ! k) = Terminated}"
       "stdout s = header cfg s @ reports s p"
    by (auto simp: printed_def)
  have "reports s' p = reports s p"
    unfolding reports_def using p(2) assms(6) by (intro map_cong) auto
  moreover have "set p = {k. k < length (workers s') \<and> pc (workers s' ! k) = Terminated}"
    using p(2) assms(4,5) by auto
  ultimately show ?thesis using p assms(2,3) unfolding printed_def by metis
qed

lemma printed_keep:
  assumes "printed cfg s" "stdout s' = stdout s" "header cfg s' = header cfg s"
    "workers s' = workers s"
  shows "printed cfg s'"
  using assms(1-3) by (rule printed_same) (simp_all add: assms(4))

lemma printed_update:
  assumes "printed cfg s" "stdout s' = stdout s" "header cfg s' = header cfg s"
    "workers s' = (workers s)[k := w]" "k < length (workers s)"
    "(pc w = Terminated) = (pc (workers s ! k) = Terminated)"
    "pc w = Terminated \<Longrightarrow> histogram w = histogram (workers s ! k)"
  shows "printed cfg s'"
  using assms(1-3)
proof (rule printed_same)
  show "length (workers s') = length (workers s)" by (simp add: assms(4))
next
  fix j assume "j < length (workers s)"
  then show "(pc (workers s' ! j) = Terminated) = (pc (workers s ! j) = Terminated)"
    using assms(5,6) by (cases "j = k") (simp_all add: assms(4))
next
  fix j assume "j < length (workers s)" "pc (workers s ! j) = Terminated"
  then show "histogram (workers s' ! j) = histogram (workers s ! j)"
    using assms(5,6,7) by (cases "j = k") (simp_all add: assms(4))
qed

lemma printed_driver:
  assumes "driver_step cfg env s = Some s'" "quiet s" "printed cfg s"
  shows "printed cfg s'"
  using assms(1)
proof (cases rule: driver_stepE)
  case Report
  from assms(2) Report have none: "\<forall>j<length (workers s). \<not> stopped (workers s ! j)"
    by (simp add: quiet_def)
  from assms(3) obtain p where
    p: "set p = {k. k < length (workers s) \<and> pc (workers s ! k) = Terminated}"
       "stdout s = header cfg s @ reports s p"
    by (auto simp: printed_def)
  from p(1) none have "set p = {}" by (auto simp: stopped_def)
  then have "p = []" by simp
  with p(2) Report have out: "stdout s = []" by (simp add: header_def reports_def)
  have "distinct ([]::nat list)" by simp
  moreover have "set [] = {k. k < length (workers s') \<and> pc (workers s' ! k) = Terminated}"
    using none Report by (auto simp: stopped_def)
  moreover have "stdout s' = header cfg s' @ reports s' []"
    using out Report by (simp add: header_def reports_def)
  ultimately show ?thesis unfolding printed_def by blast
next
  case (Init i)
  from assms(2) Init have "\<not> stopped (workers s ! i)" by (simp add: quiet_def)
  then have "pc (workers s ! i) \<noteq> Terminated" by (simp add: stopped_def)
  with Init show ?thesis
    by (intro printed_update [OF assms(3), where k = i and
          w = "(workers s ! i)\<lparr>pc := (if init (strategy cfg) env = 0
                                      then waiting (strategy cfg) else Created)\<rparr>"])
       (simp_all add: header_def)
next
  case Start
  then show ?thesis by (intro printed_keep [OF assms(3)]) (simp_all add: header_def)
next
  case (Enqueue ph i v)
  then show ?thesis by (intro printed_keep [OF assms(3)]) (simp_all add: header_def)
next
  case (Full ph i v)
  then show ?thesis by (intro printed_keep [OF assms(3)]) (simp_all add: header_def)
next
  case (Send_Busy ph i t)
  then show ?thesis by (intro printed_keep [OF assms(3)]) (simp_all add: header_def)
next
  case (Send_Loop ph i t)
  then show ?thesis
    by (intro printed_update [OF assms(3), where k = t and
          w = "(workers s ! t)\<lparr>async_pending := True\<rparr>"])
       (simp_all add: header_def)
next
  case (Send_Sem ph i t)
  then show ?thesis by (intro printed_keep [OF assms(3)]) (simp_all add: header_def)
next
  case (Set_Lost ph i t)
  then show ?thesis by (intro printed_keep [OF assms(3)]) (simp_all add: header_def)
next
  case (Set_Won ph i t)
  then show ?thesis
    by (intro printed_update [OF assms(3), where k = t and
          w = "(workers s ! t)\<lparr>pending := True\<rparr>"])
       (simp_all add: header_def)
next
  case (Post ph i t)
  then show ?thesis
    by (intro printed_update [OF assms(3), where k = t and
          w = "(workers s ! t)\<lparr>sem := Suc (sem (workers s ! t))\<rparr>"])
       (simp_all add: header_def)
next
  case (Join i)
  then show ?thesis by (intro printed_keep [OF assms(3)]) (simp_all add: header_def)
qed

lemma printed_worker:
  assumes "worker_step cfg k env s = Some s'" "k < length (workers s)" "printed cfg s"
  shows "printed cfg s'"
  using assms(1)
proof (cases rule: worker_stepE)
  case Dumped
  from assms(3) obtain p where
    p: "distinct p" "set p = {j. j < length (workers s) \<and> pc (workers s ! j) = Terminated}"
       "stdout s = header cfg s @ reports s p"
    by (auto simp: printed_def)
  from p(2) Dumped have notin: "k \<notin> set p" by auto
  have same: "reports s' p = reports s p"
    unfolding reports_def
  proof (rule map_cong [OF refl])
    fix j assume "j \<in> set p"
    with notin have "j \<noteq> k" by auto
    then show "dump (histogram (workers s' ! j)) = dump (histogram (workers s ! j))"
      using Dumped by simp
  qed
  have last: "reports s' [k] = [dump (histogram (workers s ! k))]"
    using assms(2) Dumped by (simp add: reports_def)
  have "reports s' (p @ [k]) = reports s' p @ reports s' [k]" by (simp add: reports_def)
  with same last have "reports s' (p @ [k]) = reports s p @ [dump (histogram (workers s ! k))]"
    by simp
  moreover have "header cfg s' = header cfg s" using Dumped by (simp add: header_def)
  moreover have "stdout s' = stdout s @ [dump (histogram (workers s ! k))]"
    using Dumped by simp
  ultimately have out: "stdout s' = header cfg s' @ reports s' (p @ [k])"
    using p(3) by simp
  have "set (p @ [k]) = {j. j < length (workers s') \<and> pc (workers s' ! j) = Terminated}"
  proof (intro set_eqI iffI)
    fix j assume "j \<in> set (p @ [k])"
    then show "j \<in> {j. j < length (workers s') \<and> pc (workers s' ! j) = Terminated}"
      using p(2) assms(2) Dumped by (cases "j = k") auto
  next
    fix j assume "j \<in> {j. j < length (workers s') \<and> pc (workers s' ! j) = Terminated}"
    then show "j \<in> set (p @ [k])"
      using p(2) assms(2) Dumped by (cases "j = k") auto
  qed
  moreover have "distinct (p @ [k])" using p(1) notin by simp
  ultimately show ?thesis using out unfolding printed_def by blast
next
  case Wake
  then show ?thesis
    by (intro printed_update [OF assms(3), where k = k and
          w = "(workers s ! k)\<lparr>sem := sem (workers s ! k) - 1, pc := Sem_Clear\<rparr>"])
       (simp_all add: header_def assms(2))
next
  case Cleared
  then show ?thesis
    by (intro printed_update [OF assms(3), where k = k and
          w = "(workers s ! k)\<lparr>pending := False, pc := Drain\<rparr>"])
       (simp_all add: header_def assms(2))
next
  case Spurious
  then show ?thesis
    by (intro printed_update [OF assms(3), where k = k and
          w = "(workers s ! k)\<lparr>pc := Sem_Wait\<rparr>"])
       (simp_all add: header_def assms(2))
next
  case Callback
  then show ?thesis
    by (intro printed_update [OF assms(3), where k = k and
          w = "(workers s ! k)\<lparr>async_pending := False, pc := Drain\<rparr>"])
       (simp_all add: header_def assms(2))
next
  case Empty
  then show ?thesis
    by (intro printed_update [OF assms(3), where k = k and
          w = "(workers s ! k)\<lparr>pc := waiting (strategy cfg)\<rparr>"])
       (simp_all add: header_def assms(2))
next
  case (Stop q)
  then show ?thesis
    by (intro printed_update [OF assms(3), where k = k and
          w = "(workers s ! k)\<lparr>pc := Dump\<rparr>"])
       (simp_all add: header_def assms(2))
next
  case (Record v q)
  then show ?thesis
    by (intro printed_update [OF assms(3), where k = k and
          w = "(workers s ! k)\<lparr>histogram :=
                 hdr_record_value (histogram (workers s ! k)) (latency (uv_hrtime env) v)\<rparr>"])
       (simp_all add: header_def assms(2))
qed

lemma settled_run:
  assumes "run cfg sched (initial cfg) = Some s"
    "\<forall>a\<in>set sched. uv_hrtime (snd a) \<noteq> sentinel"
  shows "settled cfg s"
  using assms(1)
proof (rule run_invariant)
  show "settled cfg (initial cfg)"
    by (simp add: settled_def invariant_initial printed_initial)
next
  fix a s s' assume a: "a \<in> set sched" and s: "settled cfg s" and st: "step cfg a s = Some s'"
  from a assms(2) have t: "uv_hrtime (snd a) \<noteq> sentinel" by simp
  from s have inv: "invariant cfg s" and pr: "printed cfg s" by (simp_all add: settled_def)
  from st inv t have "invariant cfg s'" by (rule invariant_step)
  moreover from st have "printed cfg s'"
  proof (cases rule: stepE)
    case (Driver env)
    from Driver(2) _ pr show ?thesis by (rule printed_driver) (use inv in \<open>simp add: invariant_def\<close>)
  next
    case (Worker k env)
    from Worker(4,3) pr show ?thesis by (rule printed_worker)
  qed
  ultimately show "settled cfg s'" by (simp add: settled_def)
qed

subsection \<open>Reports and the throughput line in any order\<close>

lemma formats_differ:
  "throughput_line n d m \<noteq> dump h"
  by (simp add: throughput_line_def throughput_format_def dump_def dump_format_def)

lemma tallied_initial: "tallied cfg (initial cfg)"
  by (simp add: tallied_def header_def reports_def initial_def BaseWorker_def)

lemma tallied_same:
  assumes "tallied cfg s" "stdout s' = stdout s" "header cfg s' = header cfg s"
    "length (workers s') = length (workers s)"
    "\<And>j. j < length (workers s) \<Longrightarrow>
       (pc (workers s' ! j) = Terminated) = (pc (workers s ! j) = Terminated)"
    "\<And>j. j < length (workers s) \<Longrightarrow> pc (workers s ! j) = Terminated \<Longrightarrow>
       histogram (workers s' ! j) = histogram (workers s ! j)"
  shows "tallied cfg s'"
proof -
  from assms(1) obtain p pre post where
    p: "distinct p" "set p = {k. k < length (workers s) \<and> pc (workers s ! k) = Terminated}"
       "stdout s = pre @ header cfg s @ post" "pre @ post = reports s p"
    by (auto simp: tallied_def)
  have "reports s' p = reports s p"
    unfolding reports_def using p(2) assms(6) by (intro map_cong) auto
  moreover have "set p = {k. k < length (workers s') \<and> pc (workers s' ! k) = Terminated}"
    using p(2) assms(4,5) by auto
  ultimately show ?thesis using p assms(2,3) unfolding tallied_def by metis
qed

lemma tallied_keep:
  assumes "tallied cfg s" "stdout s' = stdout s" "header cfg s' = header cfg s"
    "workers s' = workers s"
  shows "tallied cfg s'"
  using assms(1-3) by (rule tallied_same) (simp_all add: assms(4))

lemma tallied_update:
  assumes "tallied cfg s" "stdout s' = stdout s" "header cfg s' = header cfg s"
    "workers s' = (workers s)[k := w]" "k < length (workers s)"
    "(pc w = Terminated) = (pc (workers s ! k) = Terminated)"
    "pc w = Terminated \<Longrightarrow> histogram w = histogram (workers s ! k)"
  shows "tallied cfg s'"
  using assms(1-3)
proof (rule tallied_same)
  show "length (workers s') = length (workers s)" by (simp add: assms(4))
next
  fix j assume "j < length (workers s)"
  then show "(pc (workers s' ! j) = Terminated) = (pc (workers s ! j) = Terminated)"
    using assms(5,6) by (cases "j = k") (simp_all add: assms(4))
next
  fix j assume "j < length (workers s)" "pc (workers s ! j) = Terminated"
  then show "histogram (workers s' ! j) = histogram (workers s ! j)"
    using assms(5,6,7) by (cases "j = k") (simp_all add: assms(4))
qed

lemma tallied_driver:
  assumes "driver_step cfg env s = Some s'" "unstarted s" "tallied cfg s"
  shows "tallied cfg s'"
  using assms(1)
proof (cases rule: driver_stepE)
  case Report
  from assms(3) obtain p pre post where
    p: "distinct p" "set p = {k. k < length (workers s) \<and> pc (workers s ! k) = Terminated}"
       "stdout s = pre @ header cfg s @ post" "pre @ post = reports s p"
    by (auto simp: tallied_def)
  from p(3,4) Report have out: "stdout s = reports s p" by (simp add: header_def)
  have "set p = {k. k < length (workers s') \<and> pc (workers s' ! k) = Terminated}"
    using p(2) Report by simp
  moreover have "stdout s' = reports s' p @ header cfg s' @ []"
    using out Report by (simp add: header_def reports_def)
  moreover have "reports s' p @ [] = reports s' p" by simp
  ultimately show ?thesis using p(1) unfolding tallied_def by blast
next
  case (Init i)
  from assms(2) Init have "pc (workers s ! i) = Created" by (simp add: unstarted_def)
  then have "pc (workers s ! i) \<noteq> Terminated" by simp
  with Init show ?thesis
    by (intro tallied_update [OF assms(3), where k = i and
          w = "(workers s ! i)\<lparr>pc := (if init (strategy cfg) env = 0
                                      then waiting (strategy cfg) else Created)\<rparr>"])
       (simp_all add: header_def)
next
  case Start
  then show ?thesis by (intro tallied_keep [OF assms(3)]) (simp_all add: header_def)
next
  case (Enqueue ph i v)
  then show ?thesis by (intro tallied_keep [OF assms(3)]) (simp_all add: header_def)
next
  case (Full ph i v)
  then show ?thesis by (intro tallied_keep [OF assms(3)]) (simp_all add: header_def)
next
  case (Send_Busy ph i t)
  then show ?thesis by (intro tallied_keep [OF assms(3)]) (simp_all add: header_def)
next
  case (Send_Loop ph i t)
  then show ?thesis
    by (intro tallied_update [OF assms(3), where k = t and
          w = "(workers s ! t)\<lparr>async_pending := True\<rparr>"])
       (simp_all add: header_def)
next
  case (Send_Sem ph i t)
  then show ?thesis by (intro tallied_keep [OF assms(3)]) (simp_all add: header_def)
next
  case (Set_Lost ph i t)
  then show ?thesis by (intro tallied_keep [OF assms(3)]) (simp_all add: header_def)
next
  case (Set_Won ph i t)
  then show ?thesis
    by (intro tallied_update [OF assms(3), where k = t and
          w = "(workers s ! t)\<lparr>pending := True\<rparr>"])
       (simp_all add: header_def)
next
  case (Post ph i t)
  then show ?thesis
    by (intro tallied_update [OF assms(3), where k = t and
          w = "(workers s ! t)\<lparr>sem := Suc (sem (workers s ! t))\<rparr>"])
       (simp_all add: header_def)
next
  case (Join i)
  then show ?thesis by (intro tallied_keep [OF assms(3)]) (simp_all add: header_def)
qed

lemma tallied_worker:
  assumes "worker_step cfg k env s = Some s'" "k < length (workers s)" "tallied cfg s"
  shows "tallied cfg s'"
  using assms(1)
proof (cases rule: worker_stepE)
  case Dumped
  from assms(3) obtain p pre post where
    p: "distinct p" "set p = {j. j < length (workers s) \<and> pc (workers s ! j) = Terminated}"
       "stdout s = pre @ header cfg s @ post" "pre @ post = reports s p"
    by (auto simp: tallied_def)
  from p(2) Dumped have notin: "k \<notin> set p" by auto
  have same: "reports s' p = reports s p"
    unfolding reports_def
  proof (rule map_cong [OF refl])
    fix j assume "j \<in> set p"
    with notin have "j \<noteq> k" by auto
    then show "dump (histogram (workers s' ! j)) = dump (histogram (workers s ! j))"
      using Dumped by simp
  qed
  have last: "reports s' [k] = [dump (histogram (workers s ! k))]"
    using assms(2) Dumped by (simp add: reports_def)
  have "reports s' (p @ [k]) = reports s' p @ reports s' [k]" by (simp add: reports_def)
  with same last p(4) have all:
    "pre @ post @ [dump (histogram (workers s ! k))] = reports s' (p @ [k])"
    by simp
  have hd: "header cfg s' = header cfg s" using Dumped by (simp add: header_def)
  have "stdout s' = stdout s @ [dump (histogram (workers s ! k))]"
    using Dumped by simp
  with p(3) hd have out:
    "stdout s' = pre @ header cfg s' @ (post @ [dump (histogram (workers s ! k))])"
    by simp
  have "set (p @ [k]) = {j. j < length (workers s') \<and> pc (workers s' ! j) = Terminated}"
  proof (intro set_eqI iffI)
    fix j assume "j \<in> set (p @ [k])"
    then show "j \<in> {j. j < length (workers s') \<and> pc (workers s' ! j) = Terminated}"
      using p(2) assms(2) Dumped by (cases "j = k") auto
  next
    fix j assume "j \<in> {j. j < length (workers s') \<and> pc (workers s' ! j) = Terminated}"
    then show "j \<in> set (p @ [k])"
      using p(2) assms(2) Dumped by (cases "j = k") auto
  qed
  moreover have "distinct (p @ [k])" using p(1) notin by simp
  ultimately show ?thesis using out all unfolding tallied_def by blast
next
  case Wake
  then show ?thesis
    by (intro tallied_update [OF assms(3), where k = k and
          w = "(workers s ! k)\<lparr>sem := sem (workers s ! k) - 1, pc := Sem_Clear\<rparr>"])
       (simp_all add: header_def assms(2))
next
  case Cleared
  then show ?thesis
    by (intro tallied_update [OF assms(3), where k = k and
          w = "(workers s ! k)\<lparr>pending := False, pc := Drain\<rparr>"])
       (simp_all add: header_def assms(2))
next
  case Spurious
  then show ?thesis
    by (intro tallied_update [OF assms(3), where k = k and
          w = "(workers s ! k)\<lparr>pc := Sem_Wait\<rparr>"])
       (simp_all add: header_def assms(2))
next
  case Callback
  then show ?thesis
    by (intro tallied_update [OF assms(3), where k = k and
          w = "(workers s ! k)\<lparr>async_pending := False, pc := Drain\<rparr>"])
       (simp_all add: header_def assms(2))
next
  case Empty
  then show ?thesis
    by (intro tallied_update [OF assms(3), where k = k and
          w = "(workers s ! k)\<lparr>pc := waiting (strategy cfg)\<rparr>"])
       (simp_all add: header_def assms(2))
next
  case (Stop q)
  then show ?thesis
    by (intro tallied_update [OF assms(3), where k = k and
          w = "(workers s ! k)\<lparr>pc := Dump\<rparr>"])
       (simp_all add: header_def assms(2))
next
  case (Record v q)
  then show ?thesis
    by (intro tallied_update [OF assms(3), where k = k and
          w = "(workers s ! k)\<lparr>histogram :=
                 hdr_record_value (histogram (workers s ! k)) (latency (uv_hrtime env) v)\<rparr>"])
       (simp_all add: header_def assms(2))
qed

lemma tallied_run:
  assumes "run cfg sched (initial cfg) = Some s"
  shows "joined_up cfg s \<and> history cfg s \<and> tallied cfg s"
  using assms
proof (rule run_invariant)
  have "joined_up cfg (initial cfg)" by (simp add: joined_up_def initial_def init_loop_def)
  then show "joined_up cfg (initial cfg) \<and> history cfg (initial cfg) \<and> tallied cfg (initial cfg)"
    by (simp add: history_initial tallied_initial)
next
  fix a s s'
  assume s: "joined_up cfg s \<and> history cfg s \<and> tallied cfg s" and st: "step cfg a s = Some s'"
  from st s have "history cfg s'" by (auto intro: history_step)
  moreover from st have "joined_up cfg s' \<and> tallied cfg s'"
  proof (cases rule: stepE)
    case (Driver env)
    from Driver(2) have "tallied cfg s'"
      by (rule tallied_driver) (use s in \<open>simp_all add: history_def\<close>)
    moreover from Driver(2) have "joined_up cfg s'"
      by (rule joined_up_driver) (use s in simp)
    ultimately show ?thesis by simp
  next
    case (Worker k env)
    from Worker(4,3) have "tallied cfg s'" by (rule tallied_worker) (use s in simp)
    moreover from Worker(4,3) have "joined_up cfg s'"
      by (rule joined_up_worker) (use s in simp)
    ultimately show ?thesis by simp
  qed
  ultimately show "joined_up cfg s' \<and> history cfg s' \<and> tallied cfg s'" by simp
qed

subsection \<open>The output of a completed run\<close>

text \<open>
  C8. The output of a completed run holds one throughput line: the format
  \<^verbatim>\<open>Test "%s": Elapsed: %f seconds, Rate: %f queues/second\<close> with the name of the test, the
  elapsed time in seconds and the number of iterations divided by it. All other lines are
  reports, one for each worker, each worker's report once, in the order in which the
  workers finished: the format \<^verbatim>\<open>final stats (nanoseconds): ...\<close> with min, max, the
  percentiles 50, 75, 95, 98, 99 and 99.9, mean and standard deviation of that worker's
  recorder, in this order. If the clock never reads \<open>2 ^ 64 - 1\<close>, the throughput line comes
  first.
\<close>

theorem output_of_completed_run:
  assumes "run cfg sched (initial cfg) = Some s" and "completed s"
  shows "\<exists>p pre post.
           distinct p \<and> set p = {..<num_threads cfg} \<and> length p = num_threads cfg \<and>
           stdout s =
             pre @
             [(''Test '' @ [CHR 0x22] @ ''%s'' @ [CHR 0x22] @
               '': Elapsed: %f seconds, Rate: %f queues/second'' @ [CHR 0x0A],
               [Str (name cfg), Seconds (elapsed s),
                Per_Second (num_iterations cfg) (elapsed s)])] @
             post \<and>
           pre @ post =
             map (\<lambda>k.
               (''final stats (nanoseconds): min %lld max %lld median %lld 75th %lld '' @
                ''95th %lld 98th %lld 99th %lld 99.9th %lld mean: %f stddev: %f'' @ [CHR 0x0A],
                [Hdr Hdr_Min (histogram (workers s ! k)),
                 Hdr Hdr_Max (histogram (workers s ! k)),
                 Hdr (Hdr_Value_At_Percentile 50) (histogram (workers s ! k)),
                 Hdr (Hdr_Value_At_Percentile 75) (histogram (workers s ! k)),
                 Hdr (Hdr_Value_At_Percentile 95) (histogram (workers s ! k)),
                 Hdr (Hdr_Value_At_Percentile 98) (histogram (workers s ! k)),
                 Hdr (Hdr_Value_At_Percentile 99) (histogram (workers s ! k)),
                 Hdr (Hdr_Value_At_Percentile 99.9) (histogram (workers s ! k)),
                 Hdr Hdr_Mean (histogram (workers s ! k)),
                 Hdr Hdr_Stddev (histogram (workers s ! k))])) p \<and>
           ((\<forall>a\<in>set sched. uv_hrtime (snd a) \<noteq> sentinel) \<longrightarrow> pre = [])"
proof -
  from assms(1) have ju: "joined_up cfg s" and hi: "history cfg s" and ta: "tallied cfg s"
    using tallied_run by blast+
  from assms(2) have fin: "dpc s = D_Done" by (simp add: completed_def)
  from hi have len: "length (workers s) = num_threads cfg" by (simp add: history_def)
  from ju fin have all: "\<forall>j<num_threads cfg. pc (workers s ! j) = Terminated"
    by (simp add: joined_up_def)
  from ta obtain p pre post where
    p: "distinct p" "set p = {k. k < length (workers s) \<and> pc (workers s ! k) = Terminated}"
       "stdout s = pre @ header cfg s @ post" "pre @ post = reports s p"
    by (auto simp: tallied_def)
  from p(2) len all have set: "set p = {..<num_threads cfg}" by auto
  from p(1) set have card: "length p = num_threads cfg"
    using distinct_card [of p] by simp
  from fin have hd: "header cfg s =
      [throughput_line (name cfg) (elapsed s) (num_iterations cfg)]"
    by (simp add: header_def)
  have first: "pre' = []"
    if t: "\<forall>a\<in>set sched. uv_hrtime (snd a) \<noteq> sentinel"
      and out: "stdout s = pre' @ header cfg s @ post'" "pre' @ post' = reports s p'"
    for pre' post' p'
  proof -
    from assms(1) t have "settled cfg s" by (rule settled_run)
    then obtain q where q: "stdout s = header cfg s @ reports s q"
      by (auto simp: settled_def printed_def)
    show ?thesis
    proof (cases pre')
      case Nil
      then show ?thesis .
    next
      case (Cons l ls)
      with out(1) q hd have "l = throughput_line (name cfg) (elapsed s) (num_iterations cfg)"
        by simp
      moreover from Cons out(2) have "l \<in> set (reports s p')"
        by (metis append_Cons list.set_intros(1))
      ultimately show ?thesis using formats_differ by (auto simp: reports_def)
    qed
  qed
  show ?thesis
  proof (rule exI [of _ p], rule exI [of _ pre], rule exI [of _ post], intro conjI impI)
    show "distinct p" by (rule p(1))
    show "set p = {..<num_threads cfg}" by (rule set)
    show "length p = num_threads cfg" by (rule card)
    show "stdout s =
             pre @
             [(''Test '' @ [CHR 0x22] @ ''%s'' @ [CHR 0x22] @
               '': Elapsed: %f seconds, Rate: %f queues/second'' @ [CHR 0x0A],
               [Str (name cfg), Seconds (elapsed s),
                Per_Second (num_iterations cfg) (elapsed s)])] @
             post"
      using p(3) hd by (simp add: throughput_line_def throughput_format_def)
    show "pre @ post =
             map (\<lambda>k.
               (''final stats (nanoseconds): min %lld max %lld median %lld 75th %lld '' @
                ''95th %lld 98th %lld 99th %lld 99.9th %lld mean: %f stddev: %f'' @ [CHR 0x0A],
                [Hdr Hdr_Min (histogram (workers s ! k)),
                 Hdr Hdr_Max (histogram (workers s ! k)),
                 Hdr (Hdr_Value_At_Percentile 50) (histogram (workers s ! k)),
                 Hdr (Hdr_Value_At_Percentile 75) (histogram (workers s ! k)),
                 Hdr (Hdr_Value_At_Percentile 95) (histogram (workers s ! k)),
                 Hdr (Hdr_Value_At_Percentile 98) (histogram (workers s ! k)),
                 Hdr (Hdr_Value_At_Percentile 99) (histogram (workers s ! k)),
                 Hdr (Hdr_Value_At_Percentile 99.9) (histogram (workers s ! k)),
                 Hdr Hdr_Mean (histogram (workers s ! k)),
                 Hdr Hdr_Stddev (histogram (workers s ! k))])) p"
      using p(4) by (simp add: reports_def dump_def dump_format_def)
    assume "\<forall>a\<in>set sched. uv_hrtime (snd a) \<noteq> sentinel"
    then show "pre = []" using p(3,4) by (rule first)
  qed
qed

theorem output_of_completed_run_witness:
  "list_all (\<lambda>a. uv_hrtime (snd a) \<noteq> sentinel) tiny_sem_schedule \<and>
   (\<exists>s. run (tiny Sem) tiny_sem_schedule (initial (tiny Sem)) = Some s \<and> completed s \<and>
        elapsed s = 90 \<and> samples (histogram (workers s ! 0)) = [60] \<and>
        stdout s =
          [(''Test '' @ [CHR 0x22] @ ''%s'' @ [CHR 0x22] @
            '': Elapsed: %f seconds, Rate: %f queues/second'' @ [CHR 0x0A],
            [Str ''tiny'', Seconds 90, Per_Second 1 90]),
           (''final stats (nanoseconds): min %lld max %lld median %lld 75th %lld '' @
            ''95th %lld 98th %lld 99th %lld 99.9th %lld mean: %f stddev: %f'' @ [CHR 0x0A],
            [Hdr Hdr_Min (histogram (workers s ! 0)),
             Hdr Hdr_Max (histogram (workers s ! 0)),
             Hdr (Hdr_Value_At_Percentile 50) (histogram (workers s ! 0)),
             Hdr (Hdr_Value_At_Percentile 75) (histogram (workers s ! 0)),
             Hdr (Hdr_Value_At_Percentile 95) (histogram (workers s ! 0)),
             Hdr (Hdr_Value_At_Percentile 98) (histogram (workers s ! 0)),
             Hdr (Hdr_Value_At_Percentile 99) (histogram (workers s ! 0)),
             Hdr (Hdr_Value_At_Percentile 99.9) (histogram (workers s ! 0)),
             Hdr Hdr_Mean (histogram (workers s ! 0)),
             Hdr Hdr_Stddev (histogram (workers s ! 0))])])"
proof -
  have "\<exists>s. run (tiny Sem) tiny_sem_schedule (initial (tiny Sem)) = Some s \<and> completed s \<and>
      elapsed s = 90 \<and> samples (histogram (workers s ! 0)) = [60] \<and>
      stdout s = [throughput_line ''tiny'' 90 1, dump (histogram (workers s ! 0))]"
    by (simp add: model_defs example_defs latency_def hdr_record_value_def hdr_init_def
          HIGHEST_TRACKABLE_VALUE_def)
  then obtain s where
    s: "run (tiny Sem) tiny_sem_schedule (initial (tiny Sem)) = Some s" "completed s"
       "elapsed s = 90" "samples (histogram (workers s ! 0)) = [60]"
       "stdout s = [throughput_line ''tiny'' 90 1, dump (histogram (workers s ! 0))]"
    by blast
  have t: "\<forall>a\<in>set tiny_sem_schedule. uv_hrtime (snd a) \<noteq> sentinel"
    by (simp add: tiny_sem_schedule_def at_time_def sentinel_def)
  from output_of_completed_run [OF s(1,2)] t obtain p post where
    p: "set p = {..<num_threads (tiny Sem)}" "length p = num_threads (tiny Sem)"
       "stdout s =
          [] @
          [(''Test '' @ [CHR 0x22] @ ''%s'' @ [CHR 0x22] @
            '': Elapsed: %f seconds, Rate: %f queues/second'' @ [CHR 0x0A],
            [Str (name (tiny Sem)), Seconds (elapsed s),
             Per_Second (num_iterations (tiny Sem)) (elapsed s)])] @
          post"
       "[] @ post =
          map (\<lambda>k.
            (''final stats (nanoseconds): min %lld max %lld median %lld 75th %lld '' @
             ''95th %lld 98th %lld 99th %lld 99.9th %lld mean: %f stddev: %f'' @ [CHR 0x0A],
             [Hdr Hdr_Min (histogram (workers s ! k)),
              Hdr Hdr_Max (histogram (workers s ! k)),
              Hdr (Hdr_Value_At_Percentile 50) (histogram (workers s ! k)),
              Hdr (Hdr_Value_At_Percentile 75) (histogram (workers s ! k)),
              Hdr (Hdr_Value_At_Percentile 95) (histogram (workers s ! k)),
              Hdr (Hdr_Value_At_Percentile 98) (histogram (workers s ! k)),
              Hdr (Hdr_Value_At_Percentile 99) (histogram (workers s ! k)),
              Hdr (Hdr_Value_At_Percentile 99.9) (histogram (workers s ! k)),
              Hdr Hdr_Mean (histogram (workers s ! k)),
              Hdr Hdr_Stddev (histogram (workers s ! k))])) p"
    by blast
  from p(2) obtain k where "p = [k]" by (cases p) (auto simp: tiny_def)
  with p(1) have "p = [0]" by (auto simp: tiny_def)
  with p(3,4) s(3) have
    "stdout s =
          [(''Test '' @ [CHR 0x22] @ ''%s'' @ [CHR 0x22] @
            '': Elapsed: %f seconds, Rate: %f queues/second'' @ [CHR 0x0A],
            [Str ''tiny'', Seconds 90, Per_Second 1 90]),
           (''final stats (nanoseconds): min %lld max %lld median %lld 75th %lld '' @
            ''95th %lld 98th %lld 99th %lld 99.9th %lld mean: %f stddev: %f'' @ [CHR 0x0A],
            [Hdr Hdr_Min (histogram (workers s ! 0)),
             Hdr Hdr_Max (histogram (workers s ! 0)),
             Hdr (Hdr_Value_At_Percentile 50) (histogram (workers s ! 0)),
             Hdr (Hdr_Value_At_Percentile 75) (histogram (workers s ! 0)),
             Hdr (Hdr_Value_At_Percentile 95) (histogram (workers s ! 0)),
             Hdr (Hdr_Value_At_Percentile 98) (histogram (workers s ! 0)),
             Hdr (Hdr_Value_At_Percentile 99) (histogram (workers s ! 0)),
             Hdr (Hdr_Value_At_Percentile 99.9) (histogram (workers s ! 0)),
             Hdr Hdr_Mean (histogram (workers s ! 0)),
             Hdr Hdr_Stddev (histogram (workers s ! 0))])]"
    by (simp add: tiny_def)
  with s(1-4) t show ?thesis by (auto simp: list_all_iff)
qed

section \<open>One sentinel for each worker\<close>






section \<open>The wake of the blocking-wait worker\<close>

lemma last_wake_event_simps [simp]:
  "last_wake_event k [] = None"
  "last_wake_event k (tr @ [e]) = (if at_the_flag k e then Some e else last_wake_event k tr)"
  by (simp_all add: last_wake_event_def)

lemma gated_initial: "k < num_threads cfg \<Longrightarrow> gated k (initial cfg)"
  by (simp add: gated_def initial_def BaseWorker_def stopped_def)

lemma gated_driver:
  assumes "driver_step cfg env s = Some s'" "strategy cfg = Sem" "k < length (workers s)"
    "unstarted s" "gated k s"
  shows "gated k s'"
  using assms(1)
proof (cases rule: driver_stepE)
  case (Init i)
  with assms show ?thesis
    by (cases "i = k") (auto simp: gated_def Let_def unstarted_def stopped_def)
next
  case (Send_Loop ph i t)
  with assms show ?thesis by simp
next
  case (Set_Won ph i t)
  with assms show ?thesis
    by (cases "t = k") (auto simp: gated_def Let_def stopped_def)
next
  case (Post ph i t)
  with assms show ?thesis
    by (cases "t = k") (auto simp: gated_def Let_def stopped_def)
qed (use assms in \<open>auto simp: gated_def Let_def\<close>)

lemma gated_worker:
  assumes "worker_step cfg j env s = Some s'" "strategy cfg = Sem" "j < length (workers s)"
    "k < length (workers s)" "gated k s"
  shows "gated k s'"
proof (cases "j = k")
  case False
  with assms show ?thesis
    by (cases rule: worker_stepE) (auto simp: gated_def Let_def)
next
  case True
  with assms show ?thesis
    by (cases rule: worker_stepE) (auto simp: gated_def Let_def stopped_def)
qed

lemma gated_run:
  assumes "run cfg sched (initial cfg) = Some s" "strategy cfg = Sem"
  shows "history cfg s \<and> (\<forall>k<num_threads cfg. gated k s)"
  using assms(1)
proof (rule run_invariant)
  show "history cfg (initial cfg) \<and> (\<forall>k<num_threads cfg. gated k (initial cfg))"
    by (simp add: history_initial gated_initial)
next
  fix a s s'
  assume s: "history cfg s \<and> (\<forall>k<num_threads cfg. gated k s)" and st: "step cfg a s = Some s'"
  from s have len: "length (workers s) = num_threads cfg" and un: "unstarted s"
    by (simp_all add: history_def)
  from st s have "history cfg s'" by (auto intro: history_step)
  moreover from st have "\<forall>k<num_threads cfg. gated k s'"
  proof (cases rule: stepE)
    case (Driver env)
    show ?thesis
    proof (intro allI impI)
      fix k assume "k < num_threads cfg"
      with Driver(2) assms(2) len un s show "gated k s'" by (auto intro: gated_driver)
    qed
  next
    case (Worker j env)
    show ?thesis
    proof (intro allI impI)
      fix k assume "k < num_threads cfg"
      with Worker(3,4) assms(2) len s show "gated k s'" by (auto intro: gated_worker)
    qed
  qed
  ultimately show "history cfg s' \<and> (\<forall>k<num_threads cfg. gated k s')" by simp
qed

text \<open>
  C4. A worker of the blocking-wait strategy that returns from \<^verbatim>\<open>uv_sem_wait\<close> stands at
  the exchange of its pending flag from true to false, with the queue untouched. The
  exchange can always be made; it leaves the queue and the recorder as they are and the
  flag false; the worker goes on to \<open>Drain\<close> when the flag was true, and back to
  \<open>Sem_Wait\<close> when it was not. At \<open>Drain\<close> the worker takes the head of the queue: a
  token is recorded with its latency and the worker stays at \<open>Drain\<close>, the sentinel sends
  it to \<open>Dump\<close>; when the queue is empty the worker goes back to the wait. A worker changes
  the queue only from \<open>Drain\<close>. In a run of the blocking-wait strategy, a worker at
  \<open>Drain\<close> has made the exchange with success since it last returned from the wait. No run
  reaches the other branch: a worker that stands at the exchange finds its flag set.
\<close>

theorem spurious_wake_handling:
  assumes "k < length (workers s)" and "\<not> aborted (dpc s)"
  shows "(pc (workers s ! k) = Sem_Wait \<longrightarrow>
            (\<forall>env s'. step cfg (Worker k, env) s = Some s' \<longrightarrow>
               pc (workers s' ! k) = Sem_Clear \<and> queue s' = queue s)) \<and>
         (pc (workers s ! k) = Sem_Clear \<longrightarrow>
            (\<forall>env. \<exists>s'. step cfg (Worker k, env) s = Some s' \<and>
               queue s' = queue s \<and>
               histogram (workers s' ! k) = histogram (workers s ! k) \<and>
               \<not> pending (workers s' ! k) \<and>
               pc (workers s' ! k) = (if pending (workers s ! k) then Drain else Sem_Wait))) \<and>
         (pc (workers s ! k) = Drain \<longrightarrow>
            (\<forall>env. \<exists>s'. step cfg (Worker k, env) s = Some s' \<and>
               (case queue s of
                  [] \<Rightarrow>
                    queue s' = [] \<and> trace s' = trace s \<and>
                    histogram (workers s' ! k) = histogram (workers s ! k) \<and>
                    pc (workers s' ! k) =
                      (case strategy cfg of
                         Sem \<Rightarrow> Sem_Wait | Busy \<Rightarrow> Drain | Loop \<Rightarrow> Loop_Wait)
                | v # q \<Rightarrow>
                    queue s' = q \<and> trace s' = trace s @ [Ev_Dequeue k v] \<and>
                    histogram (workers s' ! k) =
                      (if v = sentinel then histogram (workers s ! k)
                       else hdr_record_value (histogram (workers s ! k))
                              (sint (uv_hrtime env - v))) \<and>
                    pc (workers s' ! k) = (if v = sentinel then Dump else Drain)))) \<and>
         (\<forall>env s'. step cfg (Worker k, env) s = Some s' \<and> queue s' \<noteq> queue s \<longrightarrow>
            pc (workers s ! k) = Drain) \<and>
         (strategy cfg = Sem \<and> run cfg sched (initial cfg) = Some s \<longrightarrow>
            (pc (workers s ! k) = Sem_Clear \<longrightarrow> pending (workers s ! k)) \<and>
            (pc (workers s ! k) = Drain \<longrightarrow>
               last_wake_event k (trace s) = Some (Ev_Clear k True)))"
proof (intro conjI impI allI)
  fix env s'
  assume "pc (workers s ! k) = Sem_Wait" "step cfg (Worker k, env) s = Some s'"
  with assms show "pc (workers s' ! k) = Sem_Clear" "queue s' = queue s"
    by (auto simp: worker_step_def Let_def split: if_splits)
next
  fix env
  assume "pc (workers s ! k) = Sem_Clear"
  with assms show "\<exists>s'. step cfg (Worker k, env) s = Some s' \<and>
               queue s' = queue s \<and>
               histogram (workers s' ! k) = histogram (workers s ! k) \<and>
               \<not> pending (workers s' ! k) \<and>
               pc (workers s' ! k) = (if pending (workers s ! k) then Drain else Sem_Wait)"
    by (simp add: worker_step_def Let_def)
next
  fix env
  assume "pc (workers s ! k) = Drain"
  with assms show "\<exists>s'. step cfg (Worker k, env) s = Some s' \<and>
               (case queue s of
                  [] \<Rightarrow>
                    queue s' = [] \<and> trace s' = trace s \<and>
                    histogram (workers s' ! k) = histogram (workers s ! k) \<and>
                    pc (workers s' ! k) =
                      (case strategy cfg of
                         Sem \<Rightarrow> Sem_Wait | Busy \<Rightarrow> Drain | Loop \<Rightarrow> Loop_Wait)
                | v # q \<Rightarrow>
                    queue s' = q \<and> trace s' = trace s @ [Ev_Dequeue k v] \<and>
                    histogram (workers s' ! k) =
                      (if v = sentinel then histogram (workers s ! k)
                       else hdr_record_value (histogram (workers s ! k))
                              (sint (uv_hrtime env - v))) \<and>
                    pc (workers s' ! k) = (if v = sentinel then Dump else Drain))"
    by (cases "queue s"; cases "strategy cfg")
       (simp_all add: worker_step_def Let_def dequeue_def latency_def)
next
  fix env s'
  assume "step cfg (Worker k, env) s = Some s' \<and> queue s' \<noteq> queue s"
  with assms have "worker_step cfg k env s = Some s'" "queue s' \<noteq> queue s" by simp_all
  then show "pc (workers s ! k) = Drain"
    by (cases "pc (workers s ! k)") (auto simp: worker_step_def Let_def split: if_splits)
next
  assume r: "strategy cfg = Sem \<and> run cfg sched (initial cfg) = Some s"
  then have h: "history cfg s" and g: "\<forall>k<num_threads cfg. gated k s"
    using gated_run by blast+
  from h assms(1) have k: "k < num_threads cfg" by (simp add: history_def)
  {
    assume "pc (workers s ! k) = Sem_Clear"
    moreover from h k have "coalesced k s" by (simp add: history_def)
    ultimately show "pending (workers s ! k)"
      by (auto simp: coalesced_def Let_def woken_def flagged_def split: if_splits)
  }
  {
    assume "pc (workers s ! k) = Drain"
    with g k show "last_wake_event k (trace s) = Some (Ev_Clear k True)"
      by (auto simp: gated_def Let_def)
  }
qed

theorem spurious_wake_handling_witness:
  "(\<exists>s s'. run (tiny Sem) wake_schedule (initial (tiny Sem)) = Some s \<and>
      0 < length (workers s) \<and> \<not> aborted (dpc s) \<and>
      pc (workers s ! 0) = Sem_Clear \<and> pending (workers s ! 0) \<and>
      step (tiny Sem) (Worker 0, at_time 3) s = Some s' \<and>
      pc (workers s' ! 0) = Drain \<and> queue s' = queue s) \<and>
   (\<exists>s s'. strategy (tiny Sem) = Sem \<and>
      run (tiny Sem) drain_schedule (initial (tiny Sem)) = Some s \<and>
      0 < length (workers s) \<and> \<not> aborted (dpc s) \<and>
      pc (workers s ! 0) = Drain \<and> queue s = [1] \<and>
      last_wake_event 0 (trace s) = Some (Ev_Clear 0 True) \<and>
      step (tiny Sem) (Worker 0, at_time 5) s = Some s' \<and>
      queue s' = [] \<and> trace s' = trace s @ [Ev_Dequeue 0 1] \<and>
      histogram (workers s' ! 0) = hdr_record_value (histogram (workers s ! 0)) 4 \<and>
      pc (workers s' ! 0) = Drain) \<and>
   (\<exists>s'. 0 < length (workers spurious_state) \<and> \<not> aborted (dpc spurious_state) \<and>
      pc (workers spurious_state ! 0) = Sem_Clear \<and> \<not> pending (workers spurious_state ! 0) \<and>
      step (tiny Sem) (Worker 0, at_time 3) spurious_state = Some s' \<and>
      pc (workers s' ! 0) = Sem_Wait \<and> queue s' = queue spurious_state)"
proof -
  have "\<exists>s. run (tiny Sem) wake_schedule (initial (tiny Sem)) = Some s \<and>
      0 < length (workers s) \<and> \<not> aborted (dpc s) \<and>
      pc (workers s ! 0) = Sem_Clear \<and> pending (workers s ! 0)"
    by (simp add: model_defs example_defs)
  then obtain s where
    s: "run (tiny Sem) wake_schedule (initial (tiny Sem)) = Some s"
       "0 < length (workers s)" "\<not> aborted (dpc s)"
       "pc (workers s ! 0) = Sem_Clear" "pending (workers s ! 0)"
    by blast
  from spurious_wake_handling [OF s(2,3), of "tiny Sem"] s(4)
  have "\<forall>env. \<exists>s'. step (tiny Sem) (Worker 0, env) s = Some s' \<and>
          queue s' = queue s \<and> histogram (workers s' ! 0) = histogram (workers s ! 0) \<and>
          \<not> pending (workers s' ! 0) \<and>
          pc (workers s' ! 0) = (if pending (workers s ! 0) then Drain else Sem_Wait)"
    by blast
  then have "\<exists>s'. step (tiny Sem) (Worker 0, at_time 3) s = Some s' \<and>
          pc (workers s' ! 0) = Drain \<and> queue s' = queue s"
    using s(5) by (elim allE [of _ "at_time 3"]) auto
  with s have first: "\<exists>s s'. run (tiny Sem) wake_schedule (initial (tiny Sem)) = Some s \<and>
      0 < length (workers s) \<and> \<not> aborted (dpc s) \<and>
      pc (workers s ! 0) = Sem_Clear \<and> pending (workers s ! 0) \<and>
      step (tiny Sem) (Worker 0, at_time 3) s = Some s' \<and>
      pc (workers s' ! 0) = Drain \<and> queue s' = queue s"
    by blast
  have sem: "strategy (tiny Sem) = Sem" by (simp add: tiny_def)
  have "\<exists>s s'. run (tiny Sem) drain_schedule (initial (tiny Sem)) = Some s \<and>
      0 < length (workers s) \<and> \<not> aborted (dpc s) \<and>
      pc (workers s ! 0) = Drain \<and> queue s = [1] \<and>
      step (tiny Sem) (Worker 0, at_time 5) s = Some s' \<and> queue s' = [] \<and>
      samples (histogram (workers s' ! 0)) = [4]"
    by (simp add: model_defs example_defs drain_schedule_def latency_def hdr_record_value_def
          hdr_init_def HIGHEST_TRACKABLE_VALUE_def)
  then obtain u where
    u: "run (tiny Sem) drain_schedule (initial (tiny Sem)) = Some u"
       "0 < length (workers u)" "\<not> aborted (dpc u)"
       "pc (workers u ! 0) = Drain" "queue u = [1]"
    by blast
  note d = spurious_wake_handling [OF u(2,3), of "tiny Sem" drain_schedule]
  from d sem u(1,4) have gate: "last_wake_event 0 (trace u) = Some (Ev_Clear 0 True)"
    by blast
  from d u(4) have "\<forall>env. \<exists>s'. step (tiny Sem) (Worker 0, env) u = Some s' \<and>
      (case queue u of
         [] \<Rightarrow>
           queue s' = [] \<and> trace s' = trace u \<and>
           histogram (workers s' ! 0) = histogram (workers u ! 0) \<and>
           pc (workers s' ! 0) =
             (case strategy (tiny Sem) of
                Sem \<Rightarrow> Sem_Wait | Busy \<Rightarrow> Drain | Loop \<Rightarrow> Loop_Wait)
       | v # q \<Rightarrow>
           queue s' = q \<and> trace s' = trace u @ [Ev_Dequeue 0 v] \<and>
           histogram (workers s' ! 0) =
             (if v = sentinel then histogram (workers u ! 0)
              else hdr_record_value (histogram (workers u ! 0)) (sint (uv_hrtime env - v))) \<and>
           pc (workers s' ! 0) = (if v = sentinel then Dump else Drain))"
    by blast
  then have "\<exists>s'. step (tiny Sem) (Worker 0, at_time 5) u = Some s' \<and>
      queue s' = [] \<and> trace s' = trace u @ [Ev_Dequeue 0 1] \<and>
      histogram (workers s' ! 0) = hdr_record_value (histogram (workers u ! 0)) 4 \<and>
      pc (workers s' ! 0) = Drain"
    using u(5) by (elim allE [of _ "at_time 5"]) (auto simp: at_time_def sentinel_def)
  with sem u gate have second: "\<exists>s s'. strategy (tiny Sem) = Sem \<and>
      run (tiny Sem) drain_schedule (initial (tiny Sem)) = Some s \<and>
      0 < length (workers s) \<and> \<not> aborted (dpc s) \<and>
      pc (workers s ! 0) = Drain \<and> queue s = [1] \<and>
      last_wake_event 0 (trace s) = Some (Ev_Clear 0 True) \<and>
      step (tiny Sem) (Worker 0, at_time 5) s = Some s' \<and>
      queue s' = [] \<and> trace s' = trace s @ [Ev_Dequeue 0 1] \<and>
      histogram (workers s' ! 0) = hdr_record_value (histogram (workers s ! 0)) 4 \<and>
      pc (workers s' ! 0) = Drain"
    by blast
  have p: "0 < length (workers spurious_state)" "\<not> aborted (dpc spurious_state)"
    "pc (workers spurious_state ! 0) = Sem_Clear" "\<not> pending (workers spurious_state ! 0)"
    by (simp_all add: model_defs example_defs)
  from spurious_wake_handling [OF p(1,2), of "tiny Sem"] p(3)
  have "\<forall>env. \<exists>s'. step (tiny Sem) (Worker 0, env) spurious_state = Some s' \<and>
          queue s' = queue spurious_state \<and>
          histogram (workers s' ! 0) = histogram (workers spurious_state ! 0) \<and>
          \<not> pending (workers s' ! 0) \<and>
          pc (workers s' ! 0) =
            (if pending (workers spurious_state ! 0) then Drain else Sem_Wait)"
    by blast
  then have "\<exists>s'. step (tiny Sem) (Worker 0, at_time 3) spurious_state = Some s' \<and>
          pc (workers s' ! 0) = Sem_Wait \<and> queue s' = queue spurious_state"
    using p(4) by (elim allE [of _ "at_time 3"]) auto
  with p have third: "\<exists>s'. 0 < length (workers spurious_state) \<and>
      \<not> aborted (dpc spurious_state) \<and>
      pc (workers spurious_state ! 0) = Sem_Clear \<and> \<not> pending (workers spurious_state ! 0) \<and>
      step (tiny Sem) (Worker 0, at_time 3) spurious_state = Some s' \<and>
      pc (workers s' ! 0) = Sem_Wait \<and> queue s' = queue spurious_state"
    by blast
  from first second third show ?thesis by (intro conjI)
qed

section \<open>A failed initialisation\<close>

text \<open>
  C5. In the blocking-wait run of the build, let \<^verbatim>\<open>uv_sem_init\<close> fail for worker 0
  (\<open>init\<close> returns \<open>- 12\<close>, and the thread of worker 0 is not created). The driver goes
  on: it initialises the other workers, enqueues the first token, calls \<open>send\<close> on
  worker 0 and posts the semaphore that was not initialised.
\<close>

theorem init_failure_ignored:
  "init Sem failing_env = - 12 \<and>
   map_option trace (run run_sem_test init_failure_schedule (initial run_sem_test)) =
     Some [Ev_Init 0 (- 12), Ev_Init 1 0, Ev_Init 2 0, Ev_Init 3 0,
           Ev_Enqueue 7, Ev_Send 0, Ev_Set 0 True, Ev_Post 0] \<and>
   map_option (\<lambda>s. map pc (workers s)) (run run_sem_test init_failure_schedule (initial run_sem_test)) =
     Some [Created, Sem_Wait, Sem_Wait, Sem_Wait] \<and>
   map_option dpc (run run_sem_test init_failure_schedule (initial run_sem_test)) =
     Some (D_Enqueue Production 1)"
  by (simp add: model_defs build_defs example_defs four_workers)

section \<open>A shutdown that never ends\<close>

lemma hang_setup_run:
  "\<exists>h tr. run run_sem_test hang_setup (initial run_sem_test) = Some (steady 5 h tr)"
  by (simp add: hang_setup_def steady_def flagged_idle_def model_defs build_defs four_workers)

lemma nth_four:
  "t < 4 \<Longrightarrow> P a \<Longrightarrow> P b \<Longrightarrow> P c \<Longrightarrow> P d \<Longrightarrow> P ([a, b, c, d] ! t)"
proof -
  assume "t < 4" "P a" "P b" "P c" "P d"
  moreover from \<open>t < 4\<close> have "t = 0 \<or> t = 1 \<or> t = 2 \<or> t = 3" by arith
  ultimately show ?thesis by (auto simp: eval_nat_numeral)
qed

lemma all_flagged:
  "pending a \<Longrightarrow> pending b \<Longrightarrow> pending c \<Longrightarrow> pending d \<Longrightarrow>
   pending ([a, b, c, d] ! (n mod 4))"
  by (rule nth_four) simp_all

lemma mod_four: "n mod 4 < Suc (Suc (Suc (Suc 0)))"
proof -
  have "n mod 4 < 4" by simp
  also have "(4::nat) = Suc (Suc (Suc (Suc 0)))" by simp
  finally show ?thesis .
qed

lemma hang_round_run:
  assumes "i < NUM_ITERATIONS"
  shows "\<exists>h' tr'. run run_sem_test hang_round (steady i h tr) = Some (steady (Suc i) h' tr')"
  using assms
  by (simp add: hang_round_def steady_def flagged_idle_def all_flagged mod_four model_defs
        build_defs)

lemma hang_rounds_run:
  "i + n \<le> NUM_ITERATIONS \<Longrightarrow>
   \<exists>h' tr'. run run_sem_test (concat (replicate n hang_round)) (steady i h tr) =
     Some (steady (i + n) h' tr')"
proof (induction n arbitrary: i h tr)
  case 0
  show ?case by (intro exI [of _ h] exI [of _ tr]) simp
next
  case (Suc n)
  then have "i < NUM_ITERATIONS" by simp
  from hang_round_run [OF this] obtain h1 tr1 where
    one: "run run_sem_test hang_round (steady i h tr) = Some (steady (Suc i) h1 tr1)"
    by blast
  from Suc.prems have "Suc i + n \<le> NUM_ITERATIONS" by simp
  from Suc.IH [OF this] obtain h2 tr2 where
    "run run_sem_test (concat (replicate n hang_round)) (steady (Suc i) h1 tr1) =
       Some (steady (Suc i + n) h2 tr2)"
    by blast
  with one show ?case by (auto simp: run_append)
qed

lemma hang_endgame_run:
  "\<exists>s. run run_sem_test hang_endgame (steady NUM_ITERATIONS h tr) = Some s \<and>
       dpc s = D_Join 1 \<and> queue s = [sentinel] \<and>
       map pc (workers s) = [Terminated, Sem_Wait, Terminated, Terminated] \<and>
       map sem (workers s) = [1, 0, 1, 0] \<and>
       map pending (workers s) = [True, False, True, False] \<and>
       trace s = tr @ hang_endgame_events"
  by (simp add: hang_endgame_def hang_endgame_events_def steady_def flagged_idle_def model_defs
        build_defs)

lemma sentinel_enqueues_simps [simp]:
  "sentinel_enqueues [] = 0"
  "sentinel_enqueues (tr @ [e]) =
     (if e = Ev_Enqueue sentinel then Suc (sentinel_enqueues tr) else sentinel_enqueues tr)"
  by (simp_all add: sentinel_enqueues_def)

lemma sentinels_logged_step:
  assumes "step cfg a s = Some s'" "sentinels_logged cfg s" "uv_hrtime (snd a) \<noteq> sentinel"
  shows "sentinels_logged cfg s'"
  using assms(1)
proof (cases rule: stepE)
  case (Driver env)
  from Driver(2) assms(2) have "shape cfg s'" by (auto simp: sentinels_logged_def intro: shape_driver)
  moreover from Driver(2) have "sentinel_enqueues (trace s') = sentinels_sent cfg (dpc s')"
  proof (cases rule: driver_stepE)
    case (Enqueue ph i v)
    with assms Driver show ?thesis by (cases ph) (auto simp: sentinels_logged_def)
  qed (use assms in \<open>auto simp: sentinels_logged_def shape_def sentinels_sent_after_send
        sentinels_sent_shutdown_loop\<close>)
  ultimately show ?thesis by (simp add: sentinels_logged_def)
next
  case (Worker k env)
  from Worker(4) assms(2) have "shape cfg s'" by (auto simp: sentinels_logged_def intro: shape_worker)
  moreover from Worker(4) assms(2) have "sentinel_enqueues (trace s') = sentinels_sent cfg (dpc s')"
    by (cases rule: worker_stepE) (auto simp: sentinels_logged_def)
  ultimately show ?thesis by (simp add: sentinels_logged_def)
qed

lemma sentinels_logged_run:
  assumes "run cfg sched (initial cfg) = Some s"
    "\<forall>a\<in>set sched. uv_hrtime (snd a) \<noteq> sentinel"
  shows "sentinel_enqueues (trace s) = sentinels_sent cfg (dpc s)"
proof -
  have "sentinels_logged cfg (initial cfg)"
    using shape_initial [of cfg] by (simp add: sentinels_logged_def) (simp add: initial_def)
  with assms(1) have "sentinels_logged cfg s"
    by (rule run_invariant) (use assms(2) in \<open>auto intro: sentinels_logged_step\<close>)
  then show ?thesis by (simp add: sentinels_logged_def)
qed

lemma hang_middle_run:
  "\<exists>h' tr'. run run_sem_test (concat (replicate (NUM_ITERATIONS - 5) hang_round)) (steady 5 h tr) =
     Some (steady NUM_ITERATIONS h' tr')"
proof -
  have le: "5 + (NUM_ITERATIONS - 5) \<le> NUM_ITERATIONS" by (simp add: NUM_ITERATIONS_def)
  have eq: "5 + (NUM_ITERATIONS - 5) = NUM_ITERATIONS" by (simp add: NUM_ITERATIONS_def)
  from hang_rounds_run [OF le, of h tr] show ?thesis by (simp only: eq)
qed

lemma hang_run:
  "\<exists>s. run run_sem_test hang_schedule (initial run_sem_test) = Some s \<and>
       dpc s = D_Join 1 \<and> queue s = [sentinel] \<and>
       map pc (workers s) = [Terminated, Sem_Wait, Terminated, Terminated] \<and>
       map sem (workers s) = [1, 0, 1, 0] \<and>
       (\<exists>tr. trace s = tr @ hang_endgame_events)"
proof -
  from hang_setup_run obtain h1 tr1 where
    a: "run run_sem_test hang_setup (initial run_sem_test) = Some (steady 5 h1 tr1)"
    by (elim exE)
  from hang_middle_run [of h1 tr1] obtain h2 tr2 where
    b: "run run_sem_test (concat (replicate (NUM_ITERATIONS - 5) hang_round)) (steady 5 h1 tr1) =
          Some (steady NUM_ITERATIONS h2 tr2)"
    by (elim exE)
  from hang_endgame_run [of h2 tr2] obtain s where
    c: "run run_sem_test hang_endgame (steady NUM_ITERATIONS h2 tr2) = Some s"
    and s: "dpc s = D_Join 1" "queue s = [sentinel]"
           "map pc (workers s) = [Terminated, Sem_Wait, Terminated, Terminated]"
           "map sem (workers s) = [1, 0, 1, 0]"
           "trace s = tr2 @ hang_endgame_events"
    by (elim exE conjE)
  have "run run_sem_test hang_schedule (initial run_sem_test) = Some s"
    unfolding hang_schedule_def by (simp only: run_append a b c option.case)
  moreover from s(5) have "\<exists>tr. trace s = tr @ hang_endgame_events" by (rule exI)
  ultimately show ?thesis using s(1-4) by (intro exI [of _ s] conjI)
qed

lemma hang_schedule_times: "\<forall>a\<in>set hang_schedule. uv_hrtime (snd a) \<noteq> sentinel"
  by (auto simp: hang_schedule_def hang_setup_def hang_round_def hang_endgame_def at_time_def
        sentinel_def)

lemma stuck:
  assumes "dpc s = D_Join 1"
    "map pc (workers s) = [Terminated, Sem_Wait, Terminated, Terminated]"
    "map sem (workers s) = [1, 0, 1, 0]"
  shows "step cfg a s = None"
proof -
  from assms(2) obtain w0 w1 w2 w3 where
    ws: "workers s = [w0, w1, w2, w3]" "pc w0 = Terminated" "pc w1 = Sem_Wait"
        "pc w2 = Terminated" "pc w3 = Terminated"
    by (auto simp: map_eq_Cons_conv)
  with assms(3) have s1: "sem w1 = 0" by simp
  obtain th env where a: "a = (th, env)" by (cases a)
  show ?thesis
  proof (cases th)
    case Driver
    with a assms(1) ws show ?thesis by (simp add: driver_step_def)
  next
    case (Worker k)
    show ?thesis
    proof (cases "k < 4")
      case False
      with a Worker ws show ?thesis by simp
    next
      case True
      then have "k = 0 \<or> k = 1 \<or> k = 2 \<or> k = 3" by arith
      with a Worker ws s1 show ?thesis
        by (auto simp: worker_step_def Let_def eval_nat_numeral)
    qed
  qed
qed

text \<open>
  C2. The blocking-wait run of the build (4 workers, 10000000 iterations) has a schedule
  under which the shutdown never ends. Worker 0 alone drains the measured loop, so the
  other three keep a wake from the production phase. The driver enqueues the first two
  sentinels and notifies workers 0 and 1; worker 0 takes the first sentinel, worker 2
  wakes on its old notification and takes the second, and worker 1 then wakes, finds the
  queue empty and returns to \<^verbatim>\<open>uv_sem_wait\<close>. The driver enqueues the last two sentinels
  and notifies workers 2 and 3; worker 3 takes one. All four sentinels have been enqueued,
  one is left in the queue, three workers have terminated, the driver waits in
  \<open>join\<close> for worker 1, worker 1 waits on a semaphore whose value is 0, and no thread
  can take a step: no continuation of the schedule completes the run.
\<close>

theorem shutdown_can_hang:
  "\<exists>s. run run_sem_test hang_schedule (initial run_sem_test) = Some s \<and>
       sentinel_enqueues (trace s) = NUM_THREADS \<and>
       dpc s = D_Join 1 \<and>
       map pc (workers s) = [Terminated, Sem_Wait, Terminated, Terminated] \<and>
       map sem (workers s) = [1, 0, 1, 0] \<and>
       queue s = [sentinel] \<and>
       (\<exists>tr. trace s = tr @ hang_endgame_events) \<and>
       (\<forall>a. step run_sem_test a s = None) \<and>
       (\<forall>sched s'. \<not> (run run_sem_test (hang_schedule @ sched) (initial run_sem_test) = Some s' \<and>
                       completed s'))"
proof -
  from hang_run obtain s tr where
    r: "run run_sem_test hang_schedule (initial run_sem_test) = Some s"
    and s: "dpc s = D_Join 1" "queue s = [sentinel]"
           "map pc (workers s) = [Terminated, Sem_Wait, Terminated, Terminated]"
           "map sem (workers s) = [1, 0, 1, 0]"
    and t: "trace s = tr @ hang_endgame_events"
    by (elim exE conjE)
  from t have t': "\<exists>tr. trace s = tr @ hang_endgame_events" by (rule exI)
  from s(1,3,4) have none: "step run_sem_test a s = None" for a by (rule stuck)
  have never: "\<not> (run run_sem_test (hang_schedule @ sched) (initial run_sem_test) = Some s' \<and>
                  completed s')" for sched s'
  proof (cases sched)
    case Nil
    with r s(1) show ?thesis by (auto simp: completed_def)
  next
    case (Cons a as)
    with r none [of a] show ?thesis by (simp add: run_append)
  qed
  from sentinels_logged_run [OF r hang_schedule_times] s(1)
  have n: "sentinel_enqueues (trace s) = NUM_THREADS" by (simp add: run_sem_test_def)
  from none have none': "\<forall>a. step run_sem_test a s = None" by (rule allI)
  from never have never': "\<forall>sched s'.
      \<not> (run run_sem_test (hang_schedule @ sched) (initial run_sem_test) = Some s' \<and> completed s')"
    by (intro allI)
  from r n s(1,3,4,2) t' none' never' show ?thesis by (intro exI [of _ s] conjI)
qed

section \<open>A queue that runs full\<close>

text \<open>
  With room for 8388608 tokens and 10000000 to enqueue, the run depends on the workers
  dequeuing while the driver produces. When they do not, the enqueue of iteration 8388608
  finds the queue full and the assertion ends the process, before the throughput line.
\<close>

lemmas busy_defs = run_busy_test_def NUM_THREADS_def NUM_ITERATIONS_def queue_size_def

lemma overflow_setup_run:
  "\<exists>tr. run run_busy_test overflow_setup (initial run_busy_test) = Some (filling 0 tr)"
  by (simp add: overflow_setup_def filling_def polling_def model_defs busy_defs four_workers)

lemma overflow_round_run:
  assumes "i < queue_size"
  shows "\<exists>tr'. run run_busy_test overflow_round (filling i tr) = Some (filling (Suc i) tr')"
  using assms
  by (simp add: overflow_round_def filling_def polling_def mod_four model_defs busy_defs
        replicate_append_same)

lemma overflow_rounds_run:
  "i + n \<le> queue_size \<Longrightarrow>
   \<exists>tr'. run run_busy_test (concat (replicate n overflow_round)) (filling i tr) =
     Some (filling (i + n) tr')"
proof (induction n arbitrary: i tr)
  case 0
  show ?case by (intro exI [of _ tr]) simp
next
  case (Suc n)
  then have "i < queue_size" by simp
  from overflow_round_run [OF this, of tr] obtain tr1 where
    one: "run run_busy_test overflow_round (filling i tr) = Some (filling (Suc i) tr1)"
    by (elim exE)
  from Suc.prems have "Suc i + n \<le> queue_size" by simp
  from Suc.IH [OF this, of tr1] obtain tr2 where
    "run run_busy_test (concat (replicate n overflow_round)) (filling (Suc i) tr1) =
       Some (filling (Suc i + n) tr2)"
    by (elim exE)
  with one show ?case by (auto simp: run_append)
qed

lemma overflow_last_run:
  "\<exists>s. run run_busy_test [(Driver, at_time 1)] (filling queue_size tr) = Some s \<and>
       dpc s = D_Abort Production queue_size \<and> stdout s = [] \<and> length (queue s) = queue_size"
  by (simp add: filling_def model_defs busy_defs)

lemma queue_can_overflow:
  "\<exists>s. run run_busy_test overflow_schedule (initial run_busy_test) = Some s \<and>
       dpc s = D_Abort Production queue_size \<and> stdout s = [] \<and> length (queue s) = queue_size"
proof -
  from overflow_setup_run obtain tr1 where
    a: "run run_busy_test overflow_setup (initial run_busy_test) = Some (filling 0 tr1)"
    by (elim exE)
  have "0 + queue_size \<le> queue_size" by simp
  from overflow_rounds_run [OF this, of tr1] obtain tr2 where
    b: "run run_busy_test (concat (replicate queue_size overflow_round)) (filling 0 tr1) =
          Some (filling queue_size tr2)"
    by (elim exE) (simp only: add_0)
  from overflow_last_run [of tr2] obtain s where
    c: "run run_busy_test [(Driver, at_time 1)] (filling queue_size tr2) = Some s"
    and s: "dpc s = D_Abort Production queue_size" "stdout s = []"
           "length (queue s) = queue_size"
    by (elim exE conjE)
  have "run run_busy_test overflow_schedule (initial run_busy_test) = Some s"
    unfolding overflow_schedule_def by (simp only: run_append a b c option.case)
  with s show ?thesis by (intro exI [of _ s] conjI)
qed

end
